theory Spec2Isabelle
  imports Main "HOL-Library.Word" "HOL-Library.List_Lexorder"
begin

unbundle bit_operations_syntax

section \<open>Constants of the key file format\<close>

type_synonym byte = "8 word"
type_synonym bytes = "byte list"

definition keyBlockSize :: nat where "keyBlockSize = 4096"
definition maxKeySize :: nat where "maxKeySize = 1024"
definition endOfBlock :: "16 word" where "endOfBlock = 0x8000"
definition compressedBit :: "16 word" where "compressedBit = 0x8000"
definition maxPrefixLen :: "16 word" where "maxPrefixLen = 0xFF XOR 0x80"
definition maxCompressedLen :: "16 word" where "maxCompressedLen = 0xFF"
definition keyIndexInterval :: nat where "keyIndexInterval = 2"
definition removedKeyLen :: "32 word" where "removedKeyLen = 0xFFFFFFFF"

text \<open>
  Errors are values. \<open>Panics\<close> is a Go panic (the process aborts, nothing is
  returned to the caller); every other failure is an \<open>error\<close> value that the Go code
  returns next to its results.
\<close>

datatype error =
    EndOfIterator | KeyNotFound | errKeyRemoved | errEmptySegment
  | NoDatabaseFound | DatabaseInUse | OSError string
  | InvalidPrefixLen | KeyTooLong | ZeroKeyLen | ShortBlock nat | EOF | NegativeOffset

datatype 'a outcome = Returns 'a | Panics string

section \<open>Key codec (encodeKey, decodeKeyLen, decodeKey, calculatePrefixLen)\<close>

record diskkey =
  keylen :: "16 word"
  compressedKey :: bytes

text \<open>The \<open>for\<close> loop of calculatePrefixLen: the length of the longest common prefix.\<close>

fun commonPrefixLen :: "bytes \<Rightarrow> bytes \<Rightarrow> nat" where
  "commonPrefixLen (x # xs) (y # ys) = (if x \<noteq> y then 0 else Suc (commonPrefixLen xs ys))"
| "commonPrefixLen _ _ = 0"

text \<open>A nil \<open>prevKey\<close> is \<open>None\<close>.\<close>

definition calculatePrefixLen :: "bytes option \<Rightarrow> bytes \<Rightarrow> nat" where
  "calculatePrefixLen prevKey key =
     (case prevKey of
        None \<Rightarrow> 0
      | Some p \<Rightarrow>
          (let len = commonPrefixLen p key in
           if len > unat maxPrefixLen \<or> int (length key) - int len > int (unat maxCompressedLen)
           then 0 else len))"

definition encodeKey :: "bytes \<Rightarrow> bytes option \<Rightarrow> diskkey" where
  "encodeKey key prevKey =
     (let prefixLen = calculatePrefixLen prevKey key in
      if prefixLen > 0 then
        (let key' = drop prefixLen key in
         \<lparr>keylen = compressedBit OR (of_nat (push_bit 8 prefixLen) OR of_nat (length key')),
          compressedKey = key'\<rparr>)
      else \<lparr>keylen = of_nat (length key), compressedKey = key\<rparr>)"

definition decodeKeyLen :: "16 word \<Rightarrow> error + (16 word \<times> 16 word)" where
  "decodeKeyLen kl =
     (case (if kl AND compressedBit \<noteq> 0 then
              (let prefixLen = drop_bit 8 kl AND maxPrefixLen;
                   compressedLen = kl AND maxCompressedLen in
               if prefixLen > maxPrefixLen \<or> compressedLen > maxCompressedLen
               then Inl InvalidPrefixLen
               else Inr (prefixLen, compressedLen))
            else if kl > of_nat maxKeySize then Inl KeyTooLong
            else Inr (0, kl)) of
        Inl e \<Rightarrow> Inl e
      | Inr (prefixLen, compressedLen) \<Rightarrow>
          if compressedLen = 0 then Inl ZeroKeyLen else Inr (prefixLen, compressedLen))"

text \<open>
  \<open>append(prevKey[:prefixLen], key...)\<close>. The slice expression panics when
  \<open>prefixLen\<close> exceeds the capacity of \<open>prevKey\<close>; a nil \<open>prevKey\<close> has capacity 0.
  Keys are modelled as values, so the bound used here is the length of \<open>prevKey\<close>.
\<close>

definition decodeKey :: "bytes \<Rightarrow> bytes option \<Rightarrow> 16 word \<Rightarrow> bytes outcome" where
  "decodeKey key prevKey prefixLen =
     (if prefixLen \<noteq> 0 then
        (case prevKey of
           None \<Rightarrow> Panics ''slice bounds out of range''
         | Some p \<Rightarrow>
             if unat prefixLen > length p then Panics ''slice bounds out of range''
             else Returns (take (unat prefixLen) p @ key))
      else Returns key)"

subsection \<open>Facts about the 16-bit key length field\<close>

lemma bit_32768_int: "bit (32768 :: int) n \<longleftrightarrow> n = 15"
proof -
  have "(32768 :: int) = 2 ^ 15" by simp
  then show ?thesis by (simp only: bit_exp_iff) auto
qed

lemma bit_128_int: "bit (128 :: int) n \<longleftrightarrow> n = 7"
proof -
  have "(128 :: int) = 2 ^ 7" by simp
  then show ?thesis by (simp only: bit_exp_iff) auto
qed

lemma maxCompressedLen_mask: "maxCompressedLen = mask 8"
  by (simp add: maxCompressedLen_def mask_eq_exp_minus_1)

lemma maxPrefixLen_mask: "maxPrefixLen = mask 7"
  by (simp add: maxPrefixLen_def mask_eq_exp_minus_1)

lemma unat_maxPrefixLen [simp]: "unat maxPrefixLen = 127"
  by (simp add: maxPrefixLen_def)

lemma unat_maxCompressedLen [simp]: "unat maxCompressedLen = 255"
  by (simp add: maxCompressedLen_def)

lemma compressed_low_byte:
  "(compressedBit OR (push_bit 8 (ucast (p :: 7 word)) OR ucast (t :: 8 word))) AND maxCompressedLen
     = (ucast t :: 16 word)"
  unfolding compressedBit_def maxCompressedLen_mask
  by (rule bit_word_eqI) (auto simp: bit_simps bit_32768_int dest: bit_imp_le_length)

lemma compressed_prefix_bits:
  "drop_bit 8 (compressedBit OR (push_bit 8 (ucast (p :: 7 word)) OR ucast (t :: 8 word)))
     AND maxPrefixLen = (ucast p :: 16 word)"
  unfolding compressedBit_def maxPrefixLen_mask
  by (rule bit_word_eqI) (auto simp: bit_simps bit_128_int dest: bit_imp_le_length)

lemma compressed_flag_set:
  "(compressedBit OR (push_bit 8 (ucast (p :: 7 word)) OR ucast (t :: 8 word))) AND compressedBit \<noteq> 0"
proof
  let ?w = "(compressedBit OR (push_bit 8 (ucast p) OR ucast t)) AND compressedBit"
  assume "?w = 0"
  then have "bit ?w 15 = bit (0 :: 16 word) 15" by simp
  then show False unfolding compressedBit_def by (simp add: bit_simps bit_32768_int)
qed

lemma small_flag_clear:
  fixes n :: "16 word"
  assumes le: "unat n \<le> 1024"
  shows "n AND compressedBit = 0"
proof (rule bit_word_eqI)
  fix k assume "k < LENGTH(16)"
  have "\<not> bit n 15"
  proof -
    from le have "unat n div 2 ^ 15 = 0" by simp
    then have "\<not> bit (unat n) 15" by (simp add: bit_iff_odd)
    then show ?thesis by (simp add: bit_unsigned_iff)
  qed
  then show "bit (n AND compressedBit) k = bit (0 :: 16 word) k"
    by (auto simp: compressedBit_def bit_simps bit_32768_int)
qed

lemma unat_of_nat16: "x < 65536 \<Longrightarrow> unat (of_nat x :: 16 word) = x"
  by (simp add: unat_of_nat)

lemma of_nat_ucast8: "t < 256 \<Longrightarrow> (of_nat t :: 16 word) = ucast (of_nat t :: 8 word)"
  by (simp add: unsigned_of_nat take_bit_nat_eq_self)

lemma of_nat_ucast7:
  "p < 128 \<Longrightarrow> (of_nat (push_bit 8 p) :: 16 word) = push_bit 8 (ucast (of_nat p :: 7 word))"
  by (simp add: unsigned_of_nat take_bit_nat_eq_self push_bit_of_nat)

lemma of_nat_ucast7': "p < 128 \<Longrightarrow> (of_nat p :: 16 word) = ucast (of_nat p :: 7 word)"
  by (simp add: unsigned_of_nat take_bit_nat_eq_self)

text \<open>The three fields of a compressed key length, for a prefix and a tail within the limits.\<close>

lemma compressed_keylen_fields:
  assumes p: "p \<le> 127" and t: "t \<le> 255"
  defines "kl \<equiv> compressedBit OR (of_nat (push_bit 8 p) OR of_nat t) :: 16 word"
  shows "kl AND compressedBit \<noteq> 0"
    and "drop_bit 8 kl AND maxPrefixLen = of_nat p"
    and "kl AND maxCompressedLen = of_nat t"
proof -
  have kl: "kl = compressedBit OR (push_bit 8 (ucast (of_nat p :: 7 word)) OR ucast (of_nat t :: 8 word))"
    using p t by (simp add: kl_def of_nat_ucast7 of_nat_ucast8)
  show "kl AND compressedBit \<noteq> 0" unfolding kl by (rule compressed_flag_set)
  show "drop_bit 8 kl AND maxPrefixLen = of_nat p"
    unfolding kl compressed_prefix_bits using p by (simp add: of_nat_ucast7')
  show "kl AND maxCompressedLen = of_nat t"
    unfolding kl compressed_low_byte using t by (simp add: of_nat_ucast8)
qed

subsection \<open>The longest common prefix\<close>

lemma commonPrefixLen_le1: "commonPrefixLen p k \<le> length p"
  by (induction p k rule: commonPrefixLen.induct) auto

lemma commonPrefixLen_le2: "commonPrefixLen p k \<le> length k"
  by (induction p k rule: commonPrefixLen.induct) auto

lemma commonPrefixLen_take: "take (commonPrefixLen p k) p = take (commonPrefixLen p k) k"
  by (induction p k rule: commonPrefixLen.induct) auto

lemma commonPrefixLen_longest:
  "take n p = take n k \<Longrightarrow> n \<le> length p \<Longrightarrow> n \<le> length k \<Longrightarrow> n \<le> commonPrefixLen p k"
proof (induction p k arbitrary: n rule: commonPrefixLen.induct)
  case (1 x xs y ys)
  then show ?case by (cases n) auto
qed auto

lemma commonPrefixLen_full: "commonPrefixLen p k = length k \<longleftrightarrow> take (length k) p = k"
proof (induction p k rule: commonPrefixLen.induct)
  case (1 x xs y ys)
  then show ?case by auto
qed auto

lemma commonPrefixLen_less:
  fixes p k :: bytes
  shows "p < k \<Longrightarrow> commonPrefixLen p k < length k"
  by (induction p k rule: commonPrefixLen.induct) auto

subsection \<open>Encoding a key and decoding it again\<close>

lemma calculatePrefixLen_le: "calculatePrefixLen prev key \<le> 127"
  by (auto simp: calculatePrefixLen_def Let_def split: option.splits)

lemma calculatePrefixLen_le_len: "calculatePrefixLen prev key \<le> length key"
  by (auto simp: calculatePrefixLen_def Let_def commonPrefixLen_le2 split: option.splits)

lemma calculatePrefixLen_tail:
  "0 < calculatePrefixLen prev key \<Longrightarrow> length key - calculatePrefixLen prev key \<le> 255"
  by (auto simp: calculatePrefixLen_def Let_def split: option.splits if_splits)

lemma calculatePrefixLen_prev:
  "0 < calculatePrefixLen prev key \<Longrightarrow>
     \<exists>p. prev = Some p \<and> calculatePrefixLen prev key \<le> length p \<and>
         take (calculatePrefixLen prev key) p = take (calculatePrefixLen prev key) key"
  by (cases prev)
    (auto simp: calculatePrefixLen_def Let_def commonPrefixLen_le1 split: if_splits
      intro: commonPrefixLen_take)

lemma encodeKey_compressedKey:
  "compressedKey (encodeKey key prev) = drop (calculatePrefixLen prev key) key"
  by (simp add: encodeKey_def Let_def)

lemma encodeKey_decodes:
  assumes len: "length key \<le> maxKeySize"
    and tail: "calculatePrefixLen prev key < length key"
  defines "pl \<equiv> calculatePrefixLen prev key"
  shows "decodeKeyLen (keylen (encodeKey key prev)) = Inr (of_nat pl, of_nat (length key - pl))"
    and "keylen (encodeKey key prev) \<noteq> endOfBlock"
    and "decodeKey (compressedKey (encodeKey key prev)) prev (of_nat pl) = Returns key"
proof -
  have pl127: "pl \<le> 127" unfolding pl_def by (rule calculatePrefixLen_le)
  have nz: "(of_nat (length key - pl) :: 16 word) \<noteq> 0"
  proof
    assume "(of_nat (length key - pl) :: 16 word) = 0"
    then have "unat (of_nat (length key - pl) :: 16 word) = 0" by simp
    moreover have "length key - pl < 65536" using len by (simp add: maxKeySize_def)
    ultimately have "length key - pl = 0" by (simp add: unat_of_nat16)
    with tail show False by (simp add: pl_def)
  qed
  show "decodeKeyLen (keylen (encodeKey key prev)) = Inr (of_nat pl, of_nat (length key - pl))"
  proof (cases "0 < pl")
    case True
    then have t: "length key - pl \<le> 255" unfolding pl_def by (rule calculatePrefixLen_tail)
    note f = compressed_keylen_fields [OF pl127 t]
    have le1: "(of_nat pl :: 16 word) \<le> maxPrefixLen"
      using pl127 by (simp add: word_le_nat_alt unat_of_nat16)
    have le2: "(of_nat (length key - pl) :: 16 word) \<le> maxCompressedLen"
      using t by (simp add: word_le_nat_alt unat_of_nat16)
    from True show ?thesis
      using f nz le1 le2
      by (simp add: decodeKeyLen_def encodeKey_def Let_def pl_def [symmetric] not_less [symmetric])
  next
    case False
    then have z: "pl = 0" by simp
    have u: "unat (of_nat (length key) :: 16 word) = length key"
      using len by (simp add: unat_of_nat16 maxKeySize_def)
    then have "(of_nat (length key) :: 16 word) AND compressedBit = 0"
      using len by (intro small_flag_clear) (simp add: maxKeySize_def)
    moreover have "\<not> (of_nat (length key) :: 16 word) > of_nat maxKeySize"
      using len u by (simp add: word_less_nat_alt unat_of_nat16 maxKeySize_def)
    ultimately show ?thesis using z nz
      by (simp add: decodeKeyLen_def encodeKey_def Let_def pl_def [symmetric])
  qed
  show "keylen (encodeKey key prev) \<noteq> endOfBlock"
  proof (cases "0 < pl")
    case True
    then have t: "length key - pl \<le> 255" unfolding pl_def by (rule calculatePrefixLen_tail)
    note f = compressed_keylen_fields [OF pl127 t]
    have "endOfBlock AND maxCompressedLen = 0"
      by (simp add: endOfBlock_def maxCompressedLen_def)
    with f(3) nz True show ?thesis
      by (auto simp: encodeKey_def Let_def pl_def [symmetric])
  next
    case False
    then have z: "pl = 0" by simp
    have u: "unat (of_nat (length key) :: 16 word) = length key"
      using len by (simp add: unat_of_nat16 maxKeySize_def)
    have "unat endOfBlock = 32768" by (simp add: endOfBlock_def)
    with u len z show ?thesis
      by (auto simp: encodeKey_def Let_def pl_def [symmetric] maxKeySize_def)
  qed
  show "decodeKey (compressedKey (encodeKey key prev)) prev (of_nat pl) = Returns key"
  proof (cases "0 < pl")
    case True
    from calculatePrefixLen_prev [OF True [unfolded pl_def]]
    obtain p where p: "prev = Some p" "pl \<le> length p" "take pl p = take pl key"
      by (auto simp: pl_def)
    have u: "unat (of_nat pl :: 16 word) = pl" using pl127 by (simp add: unat_of_nat16)
    have "(of_nat pl :: 16 word) \<noteq> 0" using True u by auto
    have "compressedKey (encodeKey key prev) = drop pl key"
      by (simp add: encodeKey_compressedKey pl_def)
    with p u \<open>(of_nat pl :: 16 word) \<noteq> 0\<close> show ?thesis
      by (simp add: decodeKey_def)
  next
    case False
    then show ?thesis by (simp add: decodeKey_def encodeKey_compressedKey pl_def [symmetric])
  qed
qed


text \<open>
  C4 (as amended). For a non-empty key of at most 1024 bytes and any previous key, encodeKey
  uses the longest common prefix with the previous key, falls back to the uncompressed form
  (prefix length 0, the whole key as tail) when that prefix is longer than 127 bytes or the
  tail longer than 255 bytes, and decodeKeyLen and decodeKey give the key back, unless the
  key is at most 127 bytes long and is itself a prefix of (or equal to) the previous key.
  The key length field is never the end-of-block marker.
\<close>

theorem encodeKey_roundtrip:
  fixes key :: bytes and prevKey :: "bytes option"
  assumes "key \<noteq> []" and "length key \<le> maxKeySize"
    and "\<not> (length key \<le> 127 \<and> (\<exists>p. prevKey = Some p \<and> take (length key) p = key))"
  shows "let lcp = (case prevKey of None \<Rightarrow> 0 | Some p \<Rightarrow> commonPrefixLen p key);
             prefixLen = (if lcp > 127 \<or> length key - lcp > 255 then 0 else lcp);
             dk = encodeKey key prevKey
         in (\<forall>p. prevKey = Some p \<longrightarrow>
               take lcp p = take lcp key \<and>
               (\<forall>n. n \<le> length p \<and> n \<le> length key \<and> take n p = take n key \<longrightarrow> n \<le> lcp))
          \<and> compressedKey dk = drop prefixLen key
          \<and> (prefixLen = 0 \<longrightarrow> keylen dk = of_nat (length key))
          \<and> decodeKeyLen (keylen dk) = Inr (of_nat prefixLen, of_nat (length key - prefixLen))
          \<and> keylen dk \<noteq> endOfBlock
          \<and> decodeKey (compressedKey dk) prevKey (of_nat prefixLen) = Returns key"
proof -
  define lcp where "lcp = (case prevKey of None \<Rightarrow> 0 | Some p \<Rightarrow> commonPrefixLen p key)"
  define prefixLen where "prefixLen = (if lcp > 127 \<or> length key - lcp > 255 then 0 else lcp)"
  have lcp_le: "lcp \<le> length key"
    by (auto simp: lcp_def commonPrefixLen_le2 split: option.splits)
  have cpl: "calculatePrefixLen prevKey key = prefixLen"
    using lcp_le
    by (auto simp: calculatePrefixLen_def prefixLen_def lcp_def Let_def split: option.splits)
  have tail: "calculatePrefixLen prevKey key < length key"
  proof (cases "prefixLen = 0")
    case True
    with assms(1) show ?thesis by (simp add: cpl)
  next
    case False
    then have eq: "prefixLen = lcp" and le: "lcp \<le> 127" by (auto simp: prefixLen_def split: if_splits)
    from False eq obtain p where p: "prevKey = Some p" "lcp = commonPrefixLen p key"
      by (cases prevKey) (auto simp: lcp_def)
    have "lcp \<noteq> length key"
    proof
      assume full: "lcp = length key"
      with p have "commonPrefixLen p key = length key" by simp
      then have "take (length key) p = key" by (simp only: commonPrefixLen_full)
      with p full le assms(3) show False by simp
    qed
    with lcp_le show ?thesis by (simp add: cpl eq)
  qed
  note dec = encodeKey_decodes [OF assms(2) tail, unfolded cpl]
  have lcp_spec: "\<forall>p. prevKey = Some p \<longrightarrow>
      take lcp p = take lcp key \<and>
      (\<forall>n. n \<le> length p \<and> n \<le> length key \<and> take n p = take n key \<longrightarrow> n \<le> lcp)"
    by (auto simp: lcp_def intro: commonPrefixLen_longest commonPrefixLen_take)
  have ck: "compressedKey (encodeKey key prevKey) = drop prefixLen key"
    by (simp add: encodeKey_compressedKey cpl)
  have unc: "prefixLen = 0 \<longrightarrow> keylen (encodeKey key prevKey) = of_nat (length key)"
    by (simp add: encodeKey_def Let_def cpl)
  show ?thesis
    unfolding Let_def lcp_def [symmetric] prefixLen_def [symmetric]
    using lcp_spec ck unc dec by blast
qed

theorem encodeKey_roundtrip_witness:
  "decodeKeyLen (keylen (encodeKey [97, 98, 99] (Some [97, 98]))) = Inr (2, 1)
   \<and> compressedKey (encodeKey [97, 98, 99] (Some [97, 98])) = [99]
   \<and> decodeKey (compressedKey (encodeKey [97, 98, 99] (Some [97, 98]))) (Some [97, 98]) 2
       = Returns [97, 98, 99]"
  using encodeKey_roundtrip [of "[97, 98, 99]" "Some [97, 98]"]
  by (simp add: maxKeySize_def Let_def decodeKey_def)

text \<open>
  C4 as stated fails: the key "a" after the previous key "ab" is encoded with prefix length 1
  and an empty tail, which decodeKeyLen rejects.
\<close>

theorem encodeKey_roundtrip_counterexample:
  "[97 :: byte] \<noteq> [] \<and> length [97 :: byte] \<le> maxKeySize
   \<and> decodeKeyLen (keylen (encodeKey [97] (Some [97, 98]))) = Inl ZeroKeyLen"
  by (simp add: encodeKey_def calculatePrefixLen_def decodeKeyLen_def compressedBit_def
      maxPrefixLen_def maxCompressedLen_def maxKeySize_def)

section \<open>Files, little-endian fields and positional reads\<close>

text \<open>
  \<open>binary.Write\<close> with \<open>binary.LittleEndian\<close> writes an n-byte integer lowest byte
  first; \<open>binary.LittleEndian.Uint16\<close>, \<open>Uint32\<close> and \<open>Uint64\<close> read the first 2, 4
  and 8 bytes of a slice back (and panic on a shorter slice, which the callers below check).
\<close>

fun le_bytes :: "nat \<Rightarrow> 'a::len word \<Rightarrow> bytes" where
  "le_bytes 0 w = []"
| "le_bytes (Suc n) w = ucast w # le_bytes n (drop_bit 8 w)"

fun le_word :: "bytes \<Rightarrow> 'a::len word" where
  "le_word [] = 0"
| "le_word (b # bs) = ucast b OR push_bit 8 (le_word bs)"

definition PutUint16 :: "16 word \<Rightarrow> bytes" where "PutUint16 w = le_bytes 2 w"
definition PutUint32 :: "32 word \<Rightarrow> bytes" where "PutUint32 w = le_bytes 4 w"
definition PutUint64 :: "64 word \<Rightarrow> bytes" where "PutUint64 w = le_bytes 8 w"

definition Uint16 :: "bytes \<Rightarrow> 16 word" where "Uint16 b = le_word (take 2 b)"
definition Uint32 :: "bytes \<Rightarrow> 32 word" where "Uint32 b = le_word (take 4 b)"
definition Uint64 :: "bytes \<Rightarrow> 64 word" where "Uint64 b = le_word (take 8 b)"

text \<open>
  \<open>os.File.ReadAt(b, off)\<close> on a file with the given contents: the buffer after the call,
  the number of bytes read, and the error (a negative offset is refused, fewer bytes than
  \<open>len(b)\<close> is \<open>io.EOF\<close>). The part of the buffer that was not read keeps its contents.
\<close>

definition ReadAt :: "bytes \<Rightarrow> bytes \<Rightarrow> int \<Rightarrow> bytes \<times> nat \<times> error option" where
  "ReadAt file b off =
     (if off < 0 then (b, 0, Some NegativeOffset)
      else
        (let chunk = take (length b) (drop (nat off) file);
             n = length chunk
         in (chunk @ drop n b, n, if n < length b then Some EOF else None)))"

section \<open>Disk segments: point lookup\<close>

text \<open>
  Modelled from the spec: the helpers \<open>less\<close> and \<open>equal\<close> that compare keys are not
  among the sources. Following the specification they are the unsigned lexicographic order
  and the equality of byte strings, which are \<open><\<close> and \<open>=\<close> on lists of bytes here.
\<close>

record diskSegment =
  keyFile :: bytes
  keyBlocks :: int
  dataFile :: bytes
  segID :: "64 word"
  keyIndex :: "bytes list option"

text \<open>
  The first key of the block in the buffer, as binarySearch0 reads it:
  \<open>keylen := Uint16(buffer); skey := buffer[2 : 2+keylen]\<close>.
\<close>

definition firstKey :: "bytes \<Rightarrow> bytes outcome" where
  "firstKey buffer =
     (if length buffer < 2 then Panics ''index out of range''
      else
        (let keylen = Uint16 buffer in
         if 2 + unat keylen > length buffer then Panics ''slice bounds out of range''
         else Returns (take (unat keylen) (drop 2 buffer))))"

text \<open>
  binarySearch0 returns the block that may hold the key. The errors of its reads are
  ignored by the code, so the buffer is threaded through: a failed read leaves (part of) the
  previous block in it.
\<close>

function binarySearch0 :: "diskSegment \<Rightarrow> int \<Rightarrow> int \<Rightarrow> bytes \<Rightarrow> bytes \<Rightarrow> (int \<times> bytes) outcome" where
  "binarySearch0 ds lowBlock highBlock key buffer =
     (if highBlock - lowBlock \<le> 1 then
        (let buffer' = fst (ReadAt (keyFile ds) buffer (highBlock * int keyBlockSize)) in
         case firstKey buffer' of
           Panics m \<Rightarrow> Panics m
         | Returns skey \<Rightarrow>
             if key < skey then Returns (lowBlock, buffer') else Returns (highBlock, buffer'))
      else
        (let block = (highBlock - lowBlock) div 2 + lowBlock;
             buffer' = fst (ReadAt (keyFile ds) buffer (block * int keyBlockSize)) in
         case firstKey buffer' of
           Panics m \<Rightarrow> Panics m
         | Returns skey \<Rightarrow>
             if key < skey then binarySearch0 ds lowBlock block key buffer'
             else binarySearch0 ds block highBlock key buffer'))"
  by pat_completeness auto
termination
  by (relation "measure (\<lambda>(ds, lo, hi, key, buffer). nat (hi - lo))") auto

text \<open>
  One round of the loop of scanBlock. \<open>scanKey\<close> decodes the key of the entry at
  \<open>index\<close>, whose length field is \<open>kl\<close>, against the previous key of the block, and
  returns it with \<open>endkey\<close>; \<open>scanFound\<close> reads the data pointer of the matching entry.
\<close>

definition scanKey :: "bytes \<Rightarrow> nat \<Rightarrow> bytes option \<Rightarrow> 16 word \<Rightarrow> (bytes \<times> nat) outcome" where
  "scanKey buffer index prevKey kl =
     (let compressed = (kl AND compressedBit \<noteq> 0);
          prefixLen = (if compressed then unat (drop_bit 8 kl AND maxPrefixLen) else 0);
          compressedLen = (if compressed then kl AND maxCompressedLen else kl);
          endkey = index + 2 + unat compressedLen
      in
      if length buffer < endkey then Panics ''slice bounds out of range''
      else
        (let key' = take (unat compressedLen) (drop (index + 2) buffer) in
         if prefixLen > 0 then
           (case prevKey of
              None \<Rightarrow> Panics ''slice bounds out of range''
            | Some p \<Rightarrow>
                if length p < prefixLen then Panics ''slice bounds out of range''
                else Returns (take prefixLen p @ key', endkey))
         else Returns (key', endkey)))"

definition scanFound :: "bytes \<Rightarrow> nat \<Rightarrow> (64 word \<times> 32 word \<times> error option) outcome" where
  "scanFound buffer endkey =
     (if length buffer < endkey + 12 then Panics ''index out of range''
      else
        (let offset = Uint64 (drop endkey buffer);
             len = Uint32 (drop (endkey + 8) buffer)
         in Returns (offset, len, if len = removedKeyLen then Some errKeyRemoved else None)))"

lemma scanKey_endkey:
  "scanKey buffer index prevKey kl = Returns (k, e) \<Longrightarrow> index + 2 \<le> e \<and> e \<le> length buffer"
  by (auto simp: scanKey_def Let_def split: if_splits option.splits)

text \<open>
  The loop of scanBlock over the block in the buffer, from entry offset \<open>index\<close> with the
  previous key of the block. It returns \<open>(offset, len, err)\<close> as the Go function does.
\<close>

function scanLoop :: "bytes \<Rightarrow> nat \<Rightarrow> bytes option \<Rightarrow> bytes \<Rightarrow> (64 word \<times> 32 word \<times> error option) outcome" where
  "scanLoop buffer index prevKey key =
     (if length buffer < index + 2 then Panics ''index out of range''
      else
        (let keylen = Uint16 (drop index buffer) in
         if keylen = endOfBlock then Returns (0, 0, Some KeyNotFound)
         else
           (case scanKey buffer index prevKey keylen of
              Panics m \<Rightarrow> Panics m
            | Returns (key', endkey) \<Rightarrow>
                if key' = key then scanFound buffer endkey
                else if \<not> key' < key then Returns (0, 0, Some KeyNotFound)
                else scanLoop buffer (endkey + 12) (Some key') key)))"
  by pat_completeness auto
termination
proof (relation "measure (\<lambda>(buffer, index, prevKey, key). length buffer - index)")
  show "wf (measure (\<lambda>(buffer, index, prevKey, key). length buffer - index))" by simp
next
  fix buffer :: bytes and index :: nat and prevKey :: "bytes option" and key :: bytes
    and kl :: "16 word" and x2 key' endkey
  assume "\<not> length buffer < index + 2"
    and "scanKey buffer index prevKey kl = Returns x2" and "(key', endkey) = x2"
  then have "index + 2 \<le> endkey" "index + 2 \<le> length buffer"
    using scanKey_endkey [of buffer index prevKey kl key' endkey] by auto
  then show "((buffer, endkey + 12, Some key', key), buffer, index, prevKey, key)
      \<in> measure (\<lambda>(buffer, index, prevKey, key). length buffer - index)"
    by simp
qed

declare scanLoop.simps [simp del]
declare binarySearch0.simps [simp del]

definition scanBlock :: "diskSegment \<Rightarrow> int \<Rightarrow> bytes \<Rightarrow> bytes \<Rightarrow> (64 word \<times> 32 word \<times> error option) outcome" where
  "scanBlock ds block key buffer =
     (case ReadAt (keyFile ds) buffer (block * int keyBlockSize) of
        (buffer', n, Some e) \<Rightarrow> Returns (0, 0, Some e)
      | (buffer', n, None) \<Rightarrow> scanLoop buffer' 0 None key)"

text \<open>
  \<open>sort.Search(n, f)\<close> of the Go library: binary search for the least index in \<open>[0, n)\<close>
  at which \<open>f\<close> holds, \<open>n\<close> when there is none.
\<close>

function sortSearchLoop :: "nat \<Rightarrow> nat \<Rightarrow> (nat \<Rightarrow> bool) \<Rightarrow> nat" where
  "sortSearchLoop i j f =
     (if i < j then
        (let h = (i + j) div 2 in
         if \<not> f h then sortSearchLoop (h + 1) j f else sortSearchLoop i h f)
      else i)"
  by pat_completeness auto
termination
  by (relation "measure (\<lambda>(i, j, f). j - i)") auto

declare sortSearchLoop.simps [simp del]

definition sortSearch :: "nat \<Rightarrow> (nat \<Rightarrow> bool) \<Rightarrow> nat" where
  "sortSearch n f = sortSearchLoop 0 n f"

definition binarySearch :: "diskSegment \<Rightarrow> bytes \<Rightarrow> (64 word \<times> 32 word \<times> error option) outcome" where
  "binarySearch ds key =
     (let buffer = replicate keyBlockSize 0 in
      case (case keyIndex ds of
              None \<Rightarrow> Some (0, keyBlocks ds - 1)
            | Some idx \<Rightarrow>
                (let index = sortSearch (length idx) (\<lambda>i. key < idx ! i) in
                 if index = 0 then None
                 else
                   (let lowblock = int ((index - 1) * keyIndexInterval);
                        highblock = lowblock + int keyIndexInterval
                    in Some (lowblock, if highblock \<ge> keyBlocks ds then keyBlocks ds - 1 else highblock)))) of
        None \<Rightarrow> Returns (0, 0, Some KeyNotFound)
      | Some (lowblock, highblock) \<Rightarrow>
          (case binarySearch0 ds lowblock highblock key buffer of
             Panics m \<Rightarrow> Panics m
           | Returns (block, buffer') \<Rightarrow> scanBlock ds block key buffer'))"

text \<open>
  \<open>diskSegment.Get\<close> returns \<open>(value, err)\<close>; a nil value is \<open>None\<close>. The offset read
  from the key file is converted to \<open>int64\<close>.
\<close>

definition Get :: "diskSegment \<Rightarrow> bytes \<Rightarrow> (bytes option \<times> error option) outcome" where
  "Get ds key =
     (case binarySearch ds key of
        Panics m \<Rightarrow> Panics m
      | Returns (offset, len, err) \<Rightarrow>
          if err = Some errKeyRemoved then Returns (None, None)
          else if err \<noteq> None then Returns (None, err)
          else
            (case ReadAt (dataFile ds) (replicate (unat len) 0) (sint offset) of
               (buffer, n, Some e) \<Rightarrow> Returns (None, Some e)
             | (buffer, n, None) \<Rightarrow> Returns (Some buffer, None)))"

subsection \<open>A tombstone is reported by Get as a nil value without an error\<close>













section \<open>Iterators\<close>

subsection \<open>The iterator of a memory segment\<close>



type_synonym nextResult = "bytes option \<times> bytes option \<times> error option"



subsection \<open>The iterator of a disk segment\<close>

record diskSegmentIterator =
  dsi_segment :: diskSegment
  dsi_lower :: "bytes option"
  dsi_upper :: "bytes option"
  dsi_buffer :: bytes
  dsi_block :: int
  dsi_bufferOffset :: nat
  dsi_key :: "bytes option"
  dsi_data :: "bytes option"
  dsi_isValid :: bool
  dsi_err :: "error option"
  dsi_finished :: bool

text \<open>
  \<open>readEntry\<close> is the part of the loop of nextKeyValue that reads one entry at the buffer
  offset, after its length field was decoded: the key (against the previous key), the data
  offset, the data length, and the buffer offset after the entry.
\<close>

definition readEntry ::
  "bytes \<Rightarrow> nat \<Rightarrow> bytes option \<Rightarrow> 16 word \<Rightarrow> 16 word \<Rightarrow> (bytes \<times> 64 word \<times> 32 word \<times> nat) outcome" where
  "readEntry buf off prevKey prefixLen compressedLen =
     (let off1 = off + 2 in
      if length buf < off1 + unat compressedLen then Panics ''slice bounds out of range''
      else
        (let off2 = off1 + unat compressedLen in
         case decodeKey (take (unat compressedLen) (drop off1 buf)) prevKey prefixLen of
           Panics m \<Rightarrow> Panics m
         | Returns k \<Rightarrow>
             if length buf < off2 + 8 then Panics ''index out of range''
             else
               (let dataoffset = Uint64 (drop off2 buf); off3 = off2 + 8 in
                if length buf < off3 + 4 then Panics ''index out of range''
                else Returns (k, dataoffset, Uint32 (drop off3 buf), off3 + 4))))"

text \<open>The test of the key against the bounds of the iterator, with its three exits.\<close>

datatype bound = Skip | Found | Beyond

definition checkBounds :: "bytes option \<Rightarrow> bytes option \<Rightarrow> bytes \<Rightarrow> bound" where
  "checkBounds lower upper k =
     (case (case lower of
              None \<Rightarrow> None
            | Some l \<Rightarrow> if k < l then Some Skip else if k = l then Some Found else None) of
        Some b \<Rightarrow> b
      | None \<Rightarrow>
          (case upper of
             None \<Rightarrow> Found
           | Some u \<Rightarrow> if k = u then Found else if \<not> k < u then Beyond else Found))"

text \<open>The value of the entry found: nil for a removed key, else read from the data file.\<close>

definition readData :: "bytes \<Rightarrow> 64 word \<Rightarrow> 32 word \<Rightarrow> bytes option \<times> error option" where
  "readData df dataoffset datalen =
     (if datalen = removedKeyLen then (None, None)
      else
        (case ReadAt df (replicate (unat datalen) 0) (sint dataoffset) of
           (b, n, e) \<Rightarrow> (Some b, e)))"

lemma readEntry_offset:
  "readEntry buf off prevKey prefixLen compressedLen = Returns (k, dataoffset, datalen, off') \<Longrightarrow>
     off' = off + 2 + unat compressedLen + 12 \<and> off' \<le> length buf"
  by (auto simp: readEntry_def Let_def split: if_splits outcome.splits)

lemma ReadAt_ok:
  assumes "ReadAt file b off = (b', n, None)"
  shows "0 \<le> off \<and> n = length b \<and> b' = take (length b) (drop (nat off) file)
       \<and> (length b > 0 \<longrightarrow> nat off + length b \<le> length file)"
proof -
  from assms have off: "0 \<le> off" by (auto simp: ReadAt_def Let_def split: if_splits)
  with assms have n: "n = min (length b) (length file - nat off)" and full: "\<not> n < length b"
    and b': "b' = take (length b) (drop (nat off) file) @ drop n b"
    by (auto simp: ReadAt_def Let_def split: if_splits)
  from n full have nb: "n = length b" and le: "length b \<le> length file - nat off" by auto
  have "length b > 0 \<longrightarrow> nat off + length b \<le> length file"
  proof
    assume "length b > 0"
    with le show "nat off + length b \<le> length file" by arith
  qed
  moreover from b' nb have "b' = take (length b) (drop (nat off) file)" by simp
  ultimately show ?thesis using off nb by blast
qed

lemma nkvLoop_next_block:
  assumes "(b, n, None) = ReadAt file buf ((blk + 1) * int keyBlockSize)" and "n = keyBlockSize"
  shows "nat (int (length file) - int keyBlockSize * (blk + 1))
       < nat (int (length file) - int keyBlockSize * blk)"
proof -
  from ReadAt_ok [OF assms(1) [symmetric]] assms(2)
  have "0 \<le> (blk + 1) * int keyBlockSize" "length buf = keyBlockSize"
    "nat ((blk + 1) * int keyBlockSize) + keyBlockSize \<le> length file"
    by (auto simp: keyBlockSize_def)
  then show ?thesis by (simp add: keyBlockSize_def algebra_simps)
qed

lemma nkvLoop_next_entry:
  assumes "\<not> length buf < off + 2"
    and "readEntry buf off prevKey prefixLen compressedLen = Returns (k, dataoffset, datalen, off')"
  shows "length buf - off' < length buf - off"
  using readEntry_offset [OF assms(2)] assms(1) by auto

text \<open>
  The loop of nextKeyValue, with its local \<open>prevKey\<close>. The result is the error returned and
  the iterator after the call.
\<close>

function nkvLoop :: "diskSegmentIterator \<Rightarrow> bytes option \<Rightarrow> (error option \<times> diskSegmentIterator) outcome" where
  "nkvLoop dsi prevKey =
     (if length (dsi_buffer dsi) < dsi_bufferOffset dsi + 2 then Panics ''index out of range''
      else
        (let keylen = Uint16 (drop (dsi_bufferOffset dsi) (dsi_buffer dsi)) in
         if keylen = endOfBlock then
           (let dsi1 = dsi\<lparr>dsi_block := dsi_block dsi + 1\<rparr> in
            if dsi_block dsi1 = keyBlocks (dsi_segment dsi1) then
              Returns (Some EndOfIterator,
                dsi1\<lparr>dsi_finished := True, dsi_err := Some EndOfIterator, dsi_key := None,
                     dsi_data := None, dsi_isValid := True\<rparr>)
            else
              (case ReadAt (keyFile (dsi_segment dsi1)) (dsi_buffer dsi1)
                      (dsi_block dsi1 * int keyBlockSize) of
                 (b, n, Some e) \<Rightarrow> Returns (Some e, dsi1\<lparr>dsi_buffer := b\<rparr>)
               | (b, n, None) \<Rightarrow>
                   if n \<noteq> keyBlockSize then Returns (Some (ShortBlock n), dsi1\<lparr>dsi_buffer := b\<rparr>)
                   else nkvLoop (dsi1\<lparr>dsi_buffer := b, dsi_bufferOffset := 0\<rparr>) None))
         else
           (case decodeKeyLen keylen of
              Inl e \<Rightarrow> Returns (Some e, dsi)
            | Inr (prefixLen, compressedLen) \<Rightarrow>
                (case readEntry (dsi_buffer dsi) (dsi_bufferOffset dsi) prevKey prefixLen compressedLen of
                   Panics m \<Rightarrow> Panics m
                 | Returns (k, dataoffset, datalen, off') \<Rightarrow>
                     (let dsi1 = dsi\<lparr>dsi_bufferOffset := off'\<rparr> in
                      case checkBounds (dsi_lower dsi) (dsi_upper dsi) k of
                        Skip \<Rightarrow> nkvLoop dsi1 (Some k)
                      | Beyond \<Rightarrow>
                          Returns (Some EndOfIterator,
                            dsi1\<lparr>dsi_finished := True, dsi_isValid := True, dsi_key := None,
                                 dsi_data := None, dsi_err := Some EndOfIterator\<rparr>)
                      | Found \<Rightarrow>
                          (case readData (dataFile (dsi_segment dsi)) dataoffset datalen of
                             (d, e) \<Rightarrow>
                               Returns (e, dsi1\<lparr>dsi_data := d, dsi_key := Some k,
                                                 dsi_isValid := True\<rparr>)))))))"
  by pat_completeness auto


termination nkvLoop
  apply (relation "measures [\<lambda>(dsi, prevKey). nat (int (length (keyFile (dsi_segment dsi)))
                                - int keyBlockSize * dsi_block dsi),
                           \<lambda>(dsi, prevKey). length (dsi_buffer dsi) - dsi_bufferOffset dsi]")
  subgoal by simp
  subgoal for dsi prevKey x xa xb y xc ya
    using nkvLoop_next_block [of xb xc "keyFile (dsi_segment dsi)" "dsi_buffer dsi" "dsi_block dsi"]
    by simp
  subgoal for dsi prevKey x b xa y x1 xb ya xc yb xd yc xe
    using nkvLoop_next_entry [of "dsi_buffer dsi" "dsi_bufferOffset dsi" prevKey xa y xb xc xd yc]
    by simp
  done

declare nkvLoop.simps [simp del]

definition nextKeyValue :: "diskSegmentIterator \<Rightarrow> (error option \<times> diskSegmentIterator) outcome" where
  "nextKeyValue dsi =
     (if dsi_finished dsi then Returns (Some EndOfIterator, dsi) else nkvLoop dsi (dsi_key dsi))"

definition Next :: "diskSegmentIterator \<Rightarrow> (nextResult \<times> diskSegmentIterator) outcome" where
  "Next dsi =
     (if dsi_isValid dsi then
        Returns ((dsi_key dsi, dsi_data dsi, dsi_err dsi), dsi\<lparr>dsi_isValid := False\<rparr>)
      else
        (case nextKeyValue dsi of
           Panics m \<Rightarrow> Panics m
         | Returns (e, dsi') \<Rightarrow>
             Returns ((dsi_key dsi', dsi_data dsi', dsi_err dsi'), dsi'\<lparr>dsi_isValid := False\<rparr>)))"


text \<open>\<open>diskSegment.Lookup\<close> returns \<open>(iterator, err)\<close>; a nil bound is \<open>None\<close>.\<close>

definition Lookup ::
  "diskSegment \<Rightarrow> bytes option \<Rightarrow> bytes option \<Rightarrow> (diskSegmentIterator option \<times> error option) outcome" where
  "Lookup ds lower upper =
     (let buffer = replicate keyBlockSize 0 in
      case (case lower of
              None \<Rightarrow> Returns (0, buffer)
            | Some l \<Rightarrow> binarySearch0 ds 0 (keyBlocks ds - 1) l buffer) of
        Panics m \<Rightarrow> Panics m
      | Returns (block, buffer') \<Rightarrow>
          (case ReadAt (keyFile ds) buffer' (block * int keyBlockSize) of
             (b, n, Some e) \<Rightarrow> Returns (None, Some e)
           | (b, n, None) \<Rightarrow>
               if n \<noteq> keyBlockSize then Returns (None, Some (ShortBlock n))
               else
                 Returns (Some \<lparr>dsi_segment = ds, dsi_lower = lower, dsi_upper = upper,
                                 dsi_buffer = b, dsi_block = block, dsi_bufferOffset = 0,
                                 dsi_key = None, dsi_data = None, dsi_isValid = False,
                                 dsi_err = None, dsi_finished = False\<rparr>, None)))"

subsection \<open>The iterator interface and its two implementations\<close>








subsection \<open>EndOfIterator is absorbing\<close>
























section \<open>The segment writer\<close>

text \<open>
  An entry handed to the writer is a key with its value; a nil value (a removed key) is
  \<open>None\<close>. The writer's input is the list of entries its iterator yields before the first
  error. The state of the loop of writeSegmentFiles: the bytes written to the key file and to
  the data file so far, and the local variables of the loop.
\<close>

type_synonym entry = "bytes \<times> bytes option"

record writer =
  keyW :: bytes
  dataW :: bytes
  dataOffset :: "64 word"
  keyBlockLen :: nat
  keyCount :: nat
  blockCount :: nat
  prevKeyW :: "bytes option"
  keyIndexW :: "bytes list"

definition newWriter :: writer where
  "newWriter = \<lparr>keyW = [], dataW = [], dataOffset = 0, keyBlockLen = 0, keyCount = 0,
                 blockCount = 0, prevKeyW = None, keyIndexW = []\<rparr>"

text \<open>
  The end of a block: the end-of-block marker and \<open>zeros[:keyBlockSize-keyBlockLen]\<close>,
  a slice expression that panics when the block is already longer than 4096 bytes.
\<close>

definition endBlock :: "writer \<Rightarrow> writer outcome" where
  "endBlock w =
     (let len = keyBlockLen w + 2 in
      if keyBlockSize < len then Panics ''slice bounds out of range''
      else
        Returns (w\<lparr>keyW := keyW w @ PutUint16 endOfBlock @ replicate (keyBlockSize - len) 0,
                   keyBlockLen := 0\<rparr>))"

definition dataLenOf :: "bytes option \<Rightarrow> 32 word" where
  "dataLenOf v = (case v of None \<Rightarrow> removedKeyLen | Some b \<Rightarrow> of_nat (length b))"

text \<open>One round of the loop, for the entry \<open>(key, v)\<close> that \<open>itr.Next()\<close> returned.\<close>

definition writeEntry :: "writer \<Rightarrow> entry \<Rightarrow> writer outcome" where
  "writeEntry w kv =
     (case kv of (key, v) \<Rightarrow>
        (let w1 = w\<lparr>keyCount := keyCount w + 1,
                     dataW := dataW w @ (case v of None \<Rightarrow> [] | Some b \<Rightarrow> b)\<rparr> in
         case (if keyBlockLen w1 + 2 + length key + 8 + 4 \<ge> keyBlockSize - 2 then
                 (case endBlock w1 of
                    Panics m \<Rightarrow> Panics m
                  | Returns w' \<Rightarrow> Returns (w'\<lparr>prevKeyW := None\<rparr>))
               else Returns w1) of
           Panics m \<Rightarrow> Panics m
         | Returns w2 \<Rightarrow>
             (let w3 = (if keyBlockLen w2 = 0 then
                          w2\<lparr>keyIndexW := (if blockCount w2 mod keyIndexInterval = 0
                                            then keyIndexW w2 @ [key] else keyIndexW w2),
                              blockCount := blockCount w2 + 1\<rparr>
                        else w2);
                  dataLen = dataLenOf v;
                  dk = encodeKey key (prevKeyW w3);
                  buf = PutUint16 (keylen dk) @ compressedKey dk
                          @ PutUint64 (dataOffset w3) @ PutUint32 dataLen
              in
              Returns (w3\<lparr>prevKeyW := Some key,
                          keyW := keyW w3 @ buf,
                          keyBlockLen := keyBlockLen w3 + 2 + length (compressedKey dk) + 8 + 4,
                          dataOffset := (if v \<noteq> None then dataOffset w3 + ucast dataLen
                                         else dataOffset w3)\<rparr>))))"

fun writeLoop :: "writer \<Rightarrow> entry list \<Rightarrow> writer outcome" where
  "writeLoop w [] = Returns w"
| "writeLoop w (kv # kvs) =
     (case writeEntry w kv of Panics m \<Rightarrow> Panics m | Returns w' \<Rightarrow> writeLoop w' kvs)"

text \<open>
  The body of writeSegmentFiles between opening the two files and returning: the loop, the
  padding of the last block, and the result \<open>(keyIndex, err)\<close>, together with the bytes
  written through \<open>keyW\<close> and \<open>dataW\<close>. The key index is nil as long as nothing was
  appended. Failures of the operating system while writing are not modelled.
\<close>

definition writeSegmentBytes ::
  "entry list \<Rightarrow> ((bytes list option \<times> error option) \<times> bytes \<times> bytes) outcome" where
  "writeSegmentBytes kvs =
     (case writeLoop newWriter kvs of
        Panics m \<Rightarrow> Panics m
      | Returns w \<Rightarrow>
          (case (if keyBlockLen w > 0 \<and> keyBlockLen w < keyBlockSize then endBlock w
                 else Returns w) of
             Panics m \<Rightarrow> Panics m
           | Returns w' \<Rightarrow>
               if keyCount w' = 0 then Returns ((None, Some errEmptySegment), keyW w', dataW w')
               else
                 Returns ((if keyIndexW w' = [] then None else Some (keyIndexW w'), None),
                          keyW w', dataW w')))"


section \<open>Files of the database directory\<close>

text \<open>
  The file system, as far as the database uses it: the contents of the files by path.
  \<open>os.OpenFile(name, O_CREATE|O_WRONLY)\<close> creates the file when it is missing and does not
  truncate an existing one; the bytes written then replace its beginning.
\<close>

type_synonym fs = "string \<rightharpoonup> bytes"

definition createWrite :: "fs \<Rightarrow> string \<Rightarrow> bytes \<Rightarrow> fs" where
  "createWrite files name written =
     files(name \<mapsto> written @ drop (length written) (case files name of None \<Rightarrow> [] | Some old \<Rightarrow> old))"

definition removeFile :: "fs \<Rightarrow> string \<Rightarrow> fs" where
  "removeFile files name = files(name := None)"

text \<open>\<open>os.Rename\<close>, whose error the code ignores: nothing happens when the source is missing.\<close>

definition renameFile :: "fs \<Rightarrow> string \<Rightarrow> string \<Rightarrow> fs" where
  "renameFile files old new =
     (case files old of None \<Rightarrow> files | Some b \<Rightarrow> (files(old := None))(new \<mapsto> b))"

definition writeSegmentFiles ::
  "fs \<Rightarrow> string \<Rightarrow> string \<Rightarrow> entry list \<Rightarrow> ((bytes list option \<times> error option) \<times> fs) outcome" where
  "writeSegmentFiles files keyFName dataFName kvs =
     (case writeSegmentBytes kvs of
        Panics m \<Rightarrow> Panics m
      | Returns (r, keyBytes, dataBytes) \<Rightarrow>
          Returns (r, createWrite (createWrite files keyFName keyBytes) dataFName dataBytes))"

subsection \<open>Segment ids and file names\<close>

text \<open>\<open>filepath.Base\<close>: the last element of a path, trailing separators removed.\<close>

definition Base :: "string \<Rightarrow> string" where
  "Base path =
     (if path = [] then ''.''
      else
        (let p = rev (dropWhile (\<lambda>c. c = CHR ''/'') (rev path));
             b = rev (takeWhile (\<lambda>c. c \<noteq> CHR ''/'') (rev p))
         in if b = [] then ''/'' else b))"

text \<open>\<open>base[strings.LastIndex(base, ".")+1:]\<close>, when there is a dot.\<close>

definition afterLastDot :: "string \<Rightarrow> string option" where
  "afterLastDot s =
     (if CHR ''.'' \<in> set s then Some (rev (takeWhile (\<lambda>c. c \<noteq> CHR ''.'') (rev s))) else None)"

fun digitsValue :: "nat \<Rightarrow> string \<Rightarrow> nat option" where
  "digitsValue acc [] = Some acc"
| "digitsValue acc (c # cs) =
     (if (48 :: nat) \<le> of_char c \<and> (of_char c :: nat) \<le> 57
      then digitsValue (10 * acc + (of_char c - 48)) cs else None)"

text \<open>\<open>strconv.Atoi\<close>: an optional sign and decimal digits, within the range of \<open>int\<close>.\<close>

definition Atoi :: "string \<Rightarrow> int option" where
  "Atoi s =
     (case s of
        [] \<Rightarrow> None
      | c # cs \<Rightarrow>
          (let neg = (c = CHR ''-''); ds = (if c = CHR ''-'' \<or> c = CHR ''+'' then cs else s) in
           if ds = [] then None
           else
             (case digitsValue 0 ds of
                None \<Rightarrow> None
              | Some n \<Rightarrow>
                  if neg then (if n \<le> 2 ^ 63 then Some (- int n) else None)
                  else (if n < 2 ^ 63 then Some (int n) else None))))"

definition getSegmentID :: "string \<Rightarrow> 64 word" where
  "getSegmentID filename =
     (case afterLastDot (Base filename) of
        None \<Rightarrow> 0
      | Some t \<Rightarrow> (case Atoi t of None \<Rightarrow> 0 | Some i \<Rightarrow> word_of_int i))"

text \<open>Decimal digits of a number, as \<open>strconv.FormatUint(id, 10)\<close> and \<open>fmt.Sprint\<close> print it.\<close>

fun digitsOf :: "nat \<Rightarrow> nat \<Rightarrow> string" where
  "digitsOf 0 n = []"
| "digitsOf (Suc fuel) n =
     (if n < 10 then [char_of (48 + n)] else digitsOf fuel (n div 10) @ [char_of (48 + n mod 10)])"

definition FormatUint :: "64 word \<Rightarrow> string" where
  "FormatUint w = digitsOf 20 (unat w)"

text \<open>\<open>filepath.Join\<close> of a cleaned directory path and a file name.\<close>

definition joinPath :: "string \<Rightarrow> string \<Rightarrow> string" where
  "joinPath dir name = (if dir = [] then name else dir @ ''/'' @ name)"

subsection \<open>Opening a segment\<close>

text \<open>
  The loop of loadKeyIndex over every \<open>keyIndexInterval\<close>-th block. A failed read makes the
  index nil; a block that starts with the end-of-block marker ends the loop.
\<close>

function loadKeyIndexLoop :: "bytes \<Rightarrow> int \<Rightarrow> int \<Rightarrow> bytes \<Rightarrow> bytes list \<Rightarrow> bytes list option outcome" where
  "loadKeyIndexLoop kf nblocks block buffer idx =
     (if block < nblocks then
        (case ReadAt kf buffer (block * int keyBlockSize) of
           (buffer', n, Some e) \<Rightarrow> Returns None
         | (buffer', n, None) \<Rightarrow>
             if length buffer' < 2 then Panics ''index out of range''
             else
               (let kl = Uint16 buffer' in
                if kl = endOfBlock then Returns (Some idx)
                else if length buffer' < 2 + unat kl then Panics ''slice bounds out of range''
                else
                  loadKeyIndexLoop kf nblocks (block + int keyIndexInterval) buffer'
                    (idx @ [take (unat kl) (drop 2 buffer')])))
      else Returns (Some idx))"
  by pat_completeness auto
termination
  by (relation "measure (\<lambda>(kf, nblocks, block, buffer, idx). nat (nblocks - block))")
    (auto simp: keyIndexInterval_def)

declare loadKeyIndexLoop.simps [simp del]

definition loadKeyIndex :: "bytes \<Rightarrow> int \<Rightarrow> bytes list option outcome" where
  "loadKeyIndex kf nblocks = loadKeyIndexLoop kf nblocks 0 (replicate keyBlockSize 0) []"

text \<open>
  newDiskSegment panics when one of the two files cannot be opened. The number of blocks is
  \<open>(size-1)/keyBlockSize + 1\<close> with Go's division, which truncates towards zero.
\<close>

definition newDiskSegment :: "fs \<Rightarrow> string \<Rightarrow> string \<Rightarrow> bytes list option \<Rightarrow> diskSegment outcome" where
  "newDiskSegment files keyFilename dataFilename index0 =
     (case files keyFilename of
        None \<Rightarrow> Panics ''open: no such file or directory''
      | Some kf \<Rightarrow>
          (case files dataFilename of
             None \<Rightarrow> Panics ''open: no such file or directory''
           | Some df \<Rightarrow>
               (let blocks = (if length kf = 0 then 0 else (int (length kf) - 1) div int keyBlockSize) + 1 in
                case (case index0 of
                        None \<Rightarrow> loadKeyIndex kf blocks
                      | Some idx \<Rightarrow> Returns (Some idx)) of
                  Panics m \<Rightarrow> Panics m
                | Returns index1 \<Rightarrow>
                    Returns \<lparr>keyFile = kf, keyBlocks = blocks, dataFile = df,
                             segID = getSegmentID keyFilename, keyIndex = index1\<rparr>)))"

text \<open>
  writeAndLoadSegment returns \<open>(segment, err)\<close>; the model adds the file system after the call.
\<close>

definition writeAndLoadSegment ::
  "fs \<Rightarrow> string \<Rightarrow> string \<Rightarrow> entry list \<Rightarrow> ((diskSegment option \<times> error option) \<times> fs) outcome" where
  "writeAndLoadSegment files keyFilename dataFilename kvs =
     (let keyFilenameTmp = keyFilename @ ''.tmp'';
          dataFilenameTmp = dataFilename @ ''.tmp'' in
      case writeSegmentFiles files keyFilenameTmp dataFilenameTmp kvs of
        Panics m \<Rightarrow> Panics m
      | Returns ((index0, err), files1) \<Rightarrow>
          if err \<noteq> None then
            Returns ((None, err), removeFile (removeFile files1 keyFilenameTmp) dataFilenameTmp)
          else
            (let files2 = renameFile (renameFile files1 keyFilenameTmp keyFilename)
                            dataFilenameTmp dataFilename in
             case newDiskSegment files2 keyFilename dataFilename index0 of
               Panics m \<Rightarrow> Panics m
             | Returns ds \<Rightarrow> Returns ((Some ds, None), files2)))"

section \<open>Little-endian fields read back\<close>

lemma length_le_bytes [simp]: "length (le_bytes n w) = n"
  by (induction n arbitrary: w) auto

lemma le_word_le_bytes:
  "(le_word (le_bytes n w) :: 'a::len word) = take_bit (8 * n) (w :: 'a word)"
proof (induction n arbitrary: w)
  case 0
  then show ?case by simp
next
  case (Suc n)
  have "(ucast (ucast w :: byte) :: 'a word) OR push_bit 8 (take_bit (8 * n) (drop_bit 8 w))
      = take_bit (8 * Suc n) w"
    by (rule bit_word_eqI) (auto simp: bit_simps)
  with Suc show ?case by simp
qed

lemma Uint16_PutUint16 [simp]: "Uint16 (PutUint16 w @ rest) = w"
  by (simp add: Uint16_def PutUint16_def le_word_le_bytes take_bit_word_eq_self)

lemma Uint32_PutUint32 [simp]: "Uint32 (PutUint32 w @ rest) = w"
  by (simp add: Uint32_def PutUint32_def le_word_le_bytes take_bit_word_eq_self)

lemma Uint64_PutUint64 [simp]: "Uint64 (PutUint64 w @ rest) = w"
  by (simp add: Uint64_def PutUint64_def le_word_le_bytes take_bit_word_eq_self)

lemma length_PutUint16 [simp]: "length (PutUint16 w) = 2" by (simp add: PutUint16_def)
lemma length_PutUint32 [simp]: "length (PutUint32 w) = 4" by (simp add: PutUint32_def)
lemma length_PutUint64 [simp]: "length (PutUint64 w) = 8" by (simp add: PutUint64_def)

section \<open>The layout of a written key file\<close>

text \<open>
  An index entry is what the key file stores for an entry: the key, the offset of its value
  in the data file and the data length field.
\<close>

type_synonym ientry = "bytes \<times> 64 word \<times> 32 word"

definition entryBytes :: "bytes option \<Rightarrow> ientry \<Rightarrow> bytes" where
  "entryBytes prev e =
     (case e of (k, off, len) \<Rightarrow>
        (let dk = encodeKey k prev in
         PutUint16 (keylen dk) @ compressedKey dk @ PutUint64 off @ PutUint32 len))"

fun blockBytes :: "bytes option \<Rightarrow> ientry list \<Rightarrow> bytes" where
  "blockBytes prev [] = []"
| "blockBytes prev (e # es) = entryBytes prev e @ blockBytes (Some (fst e)) es"

definition okKey :: "bytes option \<Rightarrow> bytes \<Rightarrow> bool" where
  "okKey prev k \<longleftrightarrow>
     k \<noteq> [] \<and> length k \<le> maxKeySize \<and> (case prev of None \<Rightarrow> True | Some p \<Rightarrow> p < k)"

lemma okKey_tail: "okKey prev k \<Longrightarrow> calculatePrefixLen prev k < length k"
proof (cases "0 < calculatePrefixLen prev k")
  case False
  assume "okKey prev k"
  with False show ?thesis by (simp add: okKey_def)
next
  case True
  assume ok: "okKey prev k"
  from True obtain p where p: "prev = Some p"
    by (cases prev) (auto simp: calculatePrefixLen_def)
  with ok have "p < k" by (simp add: okKey_def)
  then have "commonPrefixLen p k < length k" by (rule commonPrefixLen_less)
  with p show ?thesis by (auto simp: calculatePrefixLen_def Let_def)
qed

lemma length_entryBytes:
  "length (entryBytes prev (k, off, len)) = 2 + length (compressedKey (encodeKey k prev)) + 12"
  by (simp add: entryBytes_def Let_def)

lemma length_compressedKey_le: "length (compressedKey (encodeKey k prev)) \<le> length k"
  by (simp add: encodeKey_compressedKey)

text \<open>The fields of the key length that scanBlock extracts with its own bit operations.\<close>

lemma encodeKey_fields:
  assumes ok: "okKey prev k"
  defines "kl \<equiv> keylen (encodeKey k prev)" and "pl \<equiv> calculatePrefixLen prev k"
  shows "0 < pl \<Longrightarrow> kl AND compressedBit \<noteq> 0"
    and "0 < pl \<Longrightarrow> unat (drop_bit 8 kl AND maxPrefixLen) = pl"
    and "0 < pl \<Longrightarrow> unat (kl AND maxCompressedLen) = length k - pl"
    and "pl = 0 \<Longrightarrow> kl AND compressedBit = 0"
    and "pl = 0 \<Longrightarrow> unat kl = length k"
proof -
  have pl127: "pl \<le> 127" unfolding pl_def by (rule calculatePrefixLen_le)
  from ok have len: "length k \<le> 1024" by (simp add: okKey_def maxKeySize_def)
  {
    assume pos: "0 < pl"
    then have t: "length k - pl \<le> 255" unfolding pl_def by (rule calculatePrefixLen_tail)
    from pos have kl: "kl = compressedBit OR (of_nat (push_bit 8 pl) OR of_nat (length k - pl))"
      by (simp add: kl_def encodeKey_def Let_def pl_def)
    note f = compressed_keylen_fields [OF pl127 t, folded kl]
    from f(1) show "kl AND compressedBit \<noteq> 0" .
    from f(2) pl127 show "unat (drop_bit 8 kl AND maxPrefixLen) = pl"
      by (simp add: unat_of_nat16)
    from f(3) t show "unat (kl AND maxCompressedLen) = length k - pl"
      by (simp add: unat_of_nat16)
  }
  {
    assume z: "pl = 0"
    then have kl: "kl = of_nat (length k)"
      by (simp add: kl_def encodeKey_def Let_def pl_def)
    from len show u: "unat kl = length k" by (simp add: kl unat_of_nat16)
    with len show "kl AND compressedBit = 0" by (intro small_flag_clear) simp
  }
qed

subsection \<open>Decoding one entry of a block\<close>

lemma drop_append_eq:
  assumes "drop i buf = xs @ rest"
  shows "take (length xs) (drop i buf) = xs" and "drop (i + length xs) buf = rest"
proof -
  from assms show "take (length xs) (drop i buf) = xs" by simp
  have "drop (i + length xs) buf = drop (length xs) (drop i buf)" by (simp add: add.commute)
  with assms show "drop (i + length xs) buf = rest" by simp
qed

lemma drop_append_length:
  assumes "drop i buf = xs @ rest" and "0 < length xs"
  shows "i + length xs + length rest = length buf"
proof -
  from assms(1) have "length (drop i buf) = length (xs @ rest)" by simp
  then have "length buf - i = length xs + length rest" by simp
  with assms(2) show ?thesis by arith
qed

lemma scanKey_entry:
  assumes d: "drop i buf = entryBytes prev (k, off, len) @ rest" and ok: "okKey prev k"
  defines "dk \<equiv> encodeKey k prev"
  defines "e \<equiv> i + 2 + length (compressedKey dk)"
  shows "Uint16 (drop i buf) = keylen dk"
    and "scanKey buf i prev (keylen dk) = Returns (k, e)"
    and "scanFound buf e
           = Returns (off, len, if len = removedKeyLen then Some errKeyRemoved else None)"
    and "drop (e + 12) buf = rest"
    and "e + 12 \<le> length buf"
proof -
  let ?ck = "compressedKey dk"
  let ?pl = "calculatePrefixLen prev k"
  have d': "drop i buf = PutUint16 (keylen dk) @ ?ck @ PutUint64 off @ PutUint32 len @ rest"
    using d by (simp add: entryBytes_def Let_def dk_def)
  show "Uint16 (drop i buf) = keylen dk" by (simp add: d')
  have lenb: "e + 12 + length rest = length buf"
    using drop_append_length [OF d] by (simp add: length_entryBytes dk_def e_def)
  then show le: "e + 12 \<le> length buf" by simp
  have d2: "drop (i + 2) buf = ?ck @ PutUint64 off @ PutUint32 len @ rest"
    using drop_append_eq(2) [of i buf "PutUint16 (keylen dk)"] d' by simp
  have d3: "drop e buf = PutUint64 off @ PutUint32 len @ rest"
    using drop_append_eq(2) [of "i + 2" buf ?ck] d2 by (simp add: e_def)
  have d4: "drop (e + 8) buf = PutUint32 len @ rest"
    using drop_append_eq(2) [of e buf "PutUint64 off"] d3 by simp
  show "drop (e + 12) buf = rest"
    using drop_append_eq(2) [of "e + 8" buf "PutUint32 len"] d4
    by (simp add: add.assoc)
  have u64: "Uint64 (drop e buf) = off" by (simp add: d3)
  have u32: "Uint32 (drop (e + 8) buf) = len" by (simp add: d4)
  show "scanFound buf e = Returns (off, len, if len = removedKeyLen then Some errKeyRemoved else None)"
    unfolding scanFound_def Let_def u64 u32 using le by simp
  have ck: "?ck = drop ?pl k" by (simp add: dk_def encodeKey_compressedKey)
  have tl: "?pl < length k" using ok by (rule okKey_tail)
  have tk: "take (length ?ck) (drop (i + 2) buf) = ?ck" unfolding d2 by simp
  have le2: "\<not> length buf < i + 2 + length ?ck" using le by (simp add: e_def)
  note f = encodeKey_fields [OF ok, folded dk_def]
  show "scanKey buf i prev (keylen dk) = Returns (k, e)"
  proof (cases "0 < ?pl")
    case True
    from calculatePrefixLen_prev [OF True]
    obtain p where p: "prev = Some p" "?pl \<le> length p" "take ?pl p = take ?pl k" by blast
    have cl: "unat (keylen dk AND maxCompressedLen) = length ?ck"
      using f(3) [OF True] by (simp add: ck)
    have "take ?pl p @ ?ck = k" by (simp add: p(3) ck)
    with True f(1,2) [OF True] p(1,2) le2 cl tk show ?thesis
      by (simp add: scanKey_def Let_def e_def)
  next
    case False
    then have z: "?pl = 0" by simp
    have cl: "unat (keylen dk) = length ?ck" using f(5) [OF z] z by (simp add: ck)
    have "?ck = k" using z by (simp add: ck)
    with f(4) [OF z] le2 cl tk show ?thesis
      by (simp add: scanKey_def Let_def e_def)
  qed
qed

subsection \<open>Scanning a block\<close>

fun okKeys :: "bytes option \<Rightarrow> ientry list \<Rightarrow> bool" where
  "okKeys prev [] = True"
| "okKeys prev (e # es) = (okKey prev (fst e) \<and> okKeys (Some (fst e)) es)"

lemma okKeys_greater: "okKeys (Some k) es \<Longrightarrow> e \<in> set es \<Longrightarrow> k < fst e"
proof (induction es arbitrary: k)
  case Nil
  then show ?case by simp
next
  case (Cons a es)
  from Cons.prems(1) have ka: "k < fst a" and rest: "okKeys (Some (fst a)) es"
    by (auto simp: okKey_def)
  show ?case
  proof (cases "e = a")
    case True
    with ka show ?thesis by simp
  next
    case False
    with Cons.prems(2) have "e \<in> set es" by simp
    from Cons.IH [OF rest this] ka show ?thesis by simp
  qed
qed

lemma okKey_not_endOfBlock: "okKey prev k \<Longrightarrow> keylen (encodeKey k prev) \<noteq> endOfBlock"
  using encodeKey_decodes(2) [of k prev] okKey_tail [of prev k] by (simp add: okKey_def)

definition scanResult ::
  "(64 word \<times> 32 word) option \<Rightarrow> (64 word \<times> 32 word \<times> error option) outcome" where
  "scanResult r =
     (case r of
        None \<Rightarrow> Returns (0, 0, Some KeyNotFound)
      | Some (off, len) \<Rightarrow>
          Returns (off, len, if len = removedKeyLen then Some errKeyRemoved else None))"

lemma scanLoop_block:
  assumes "drop i buf = blockBytes prev es @ PutUint16 endOfBlock @ pad" and "okKeys prev es"
  shows "scanLoop buf i prev key = scanResult (map_of es key)"
  using assms
proof (induction es arbitrary: i prev)
  case Nil
  then have d: "drop i buf = PutUint16 endOfBlock @ pad" by simp
  from drop_append_length [OF d] have "\<not> length buf < i + 2" by simp
  moreover have "Uint16 (drop i buf) = endOfBlock" by (simp add: d)
  ultimately show ?case
    by (subst scanLoop.simps) (simp add: scanResult_def)
next
  case (Cons e es)
  obtain k off len where e: "e = (k, off, len)" by (cases e) auto
  let ?rest = "blockBytes (Some k) es @ PutUint16 endOfBlock @ pad"
  from Cons.prems e have d: "drop i buf = entryBytes prev (k, off, len) @ ?rest"
    and ok: "okKey prev k" and oks: "okKeys (Some k) es"
    by simp_all
  define ek where "ek = i + 2 + length (compressedKey (encodeKey k prev))"
  note s = scanKey_entry [OF d ok, folded ek_def]
  from s(5) have inb: "\<not> length buf < i + 2" by (simp add: ek_def)
  have neob: "keylen (encodeKey k prev) \<noteq> endOfBlock" using ok by (rule okKey_not_endOfBlock)
  have step: "scanLoop buf i prev key =
      (if k = key then scanFound buf ek
       else if \<not> k < key then Returns (0, 0, Some KeyNotFound)
       else scanLoop buf (ek + 12) (Some k) key)"
    using inb neob by (subst scanLoop.simps) (simp add: s(1) s(2))
  show ?case
  proof (cases "k = key")
    case True
    with step s(3) e show ?thesis by (simp add: scanResult_def)
  next
    case False
    show ?thesis
    proof (cases "k < key")
      case True
      from Cons.IH [OF s(4) oks] step True False e show ?thesis by simp
    next
      case gt: False
      have "map_of es key = None"
      proof (rule ccontr)
        assume "map_of es key \<noteq> None"
        then obtain x where x: "x \<in> set es" "fst x = key"
          by (auto simp: map_of_eq_None_iff)
        from okKeys_greater [OF oks x(1)] x(2) have "k < key" by simp
        with gt show False by simp
      qed
      with step gt False e show ?thesis by (simp add: scanResult_def)
    qed
  qed
qed

subsection \<open>Blocks of the key file\<close>

definition renderBlock :: "ientry list \<Rightarrow> bytes" where
  "renderBlock g =
     blockBytes None g @ PutUint16 endOfBlock
       @ replicate (keyBlockSize - (length (blockBytes None g) + 2)) 0"

definition okBlock :: "ientry list \<Rightarrow> bool" where
  "okBlock g \<longleftrightarrow> g \<noteq> [] \<and> okKeys None g \<and> length (blockBytes None g) + 2 < keyBlockSize"

definition okLayout :: "ientry list list \<Rightarrow> bool" where
  "okLayout G \<longleftrightarrow>
     G \<noteq> [] \<and> (\<forall>g \<in> set G. okBlock g) \<and> sorted_wrt (\<lambda>a b. fst a < fst b) (concat G)"

definition layoutFile :: "ientry list list \<Rightarrow> bytes" where
  "layoutFile G = concat (map renderBlock G)"

lemma length_renderBlock: "okBlock g \<Longrightarrow> length (renderBlock g) = keyBlockSize"
  unfolding renderBlock_def okBlock_def by simp arith

lemma concat_block_at:
  assumes "\<forall>g \<in> set G. length (f g) = n" and "j < length G"
  shows "take n (drop (j * n) (concat (map f G))) = f (G ! j)"
  using assms
proof (induction G arbitrary: j)
  case Nil
  then show ?case by simp
next
  case (Cons g G)
  show ?case
  proof (cases j)
    case 0
    with Cons.prems show ?thesis by simp
  next
    case (Suc j')
    with Cons.prems have "take n (drop (j' * n) (concat (map f G))) = f (G ! j')"
      by (intro Cons.IH) auto
    moreover have "length (f g) = n" using Cons.prems by simp
    ultimately show ?thesis using Suc by simp
  qed
qed

lemma length_concat_blocks:
  "\<forall>g \<in> set G. length (f g) = n \<Longrightarrow> length (concat (map f G)) = length G * n"
  by (induction G) auto

lemma length_layoutFile: "okLayout G \<Longrightarrow> length (layoutFile G) = length G * keyBlockSize"
  unfolding layoutFile_def
  by (rule length_concat_blocks) (simp add: okLayout_def length_renderBlock)

lemma layoutFile_block:
  assumes "okLayout G" and "j < length G"
  shows "take keyBlockSize (drop (j * keyBlockSize) (layoutFile G)) = renderBlock (G ! j)"
  unfolding layoutFile_def using assms
  by (intro concat_block_at) (simp_all add: okLayout_def length_renderBlock)

lemma ReadAt_layoutFile:
  assumes G: "okLayout G" and j: "j < length G" and buf: "length buf = keyBlockSize"
  shows "ReadAt (layoutFile G) buf (int j * int keyBlockSize)
           = (renderBlock (G ! j), keyBlockSize, None)"
proof -
  have n: "nat (int j * int keyBlockSize) = j * keyBlockSize"
    by (simp add: nat_mult_distrib)
  have nn: "\<not> int j * int keyBlockSize < 0" by (simp add: zero_le_mult_iff not_less)
  have "length (renderBlock (G ! j)) = keyBlockSize"
    using G j by (simp add: okLayout_def length_renderBlock)
  then show ?thesis
    using layoutFile_block [OF G j] buf
    by (simp add: ReadAt_def Let_def n nn)
qed

lemma okBlock_first:
  assumes "okBlock g"
  obtains k off len es where "g = (k, off, len) # es" and "okKey None k"
    and "okKeys (Some k) es"
  using assms by (cases g) (auto simp: okBlock_def)

lemma firstKey_renderBlock:
  assumes "okBlock g"
  shows "firstKey (renderBlock g) = Returns (fst (hd g))"
proof -
  from assms obtain k off len es where g: "g = (k, off, len) # es" and ok: "okKey None k"
    by (rule okBlock_first)
  have len: "length (renderBlock g) = keyBlockSize" using assms by (rule length_renderBlock)
  have enc: "encodeKey k None = \<lparr>keylen = of_nat (length k), compressedKey = k\<rparr>"
    by (simp add: encodeKey_def calculatePrefixLen_def)
  have r: "renderBlock g = PutUint16 (of_nat (length k)) @ k @ PutUint64 off @ PutUint32 len
      @ blockBytes (Some k) es @ PutUint16 endOfBlock
      @ replicate (keyBlockSize - (length (blockBytes None g) + 2)) 0"
    by (simp add: renderBlock_def g entryBytes_def enc)
  from ok have kl: "length k \<le> 1024" by (simp add: okKey_def maxKeySize_def)
  then have u: "unat (of_nat (length k) :: 16 word) = length k" by (simp add: unat_of_nat16)
  have u16: "Uint16 (renderBlock g) = of_nat (length k)" by (subst r) simp
  have dr: "drop 2 (renderBlock g) = k @ PutUint64 off @ PutUint32 len
      @ blockBytes (Some k) es @ PutUint16 endOfBlock
      @ replicate (keyBlockSize - (length (blockBytes None g) + 2)) 0"
    by (subst r) simp
  show ?thesis
    using len kl by (simp add: firstKey_def Let_def u16 u dr keyBlockSize_def) (simp add: g)
qed

lemma sorted_concat_blocks:
  assumes "sorted_wrt P (concat G)" and "j < j'" and "j' < length G"
    and "a \<in> set (G ! j)" and "b \<in> set (G ! j')"
  shows "P a b"
  using assms
proof (induction G arbitrary: j j')
  case Nil
  then show ?case by simp
next
  case (Cons g G)
  from Cons.prems(2) obtain i' where j': "j' = Suc i'" by (cases j') auto
  show ?case
  proof (cases j)
    case 0
    with Cons.prems j' have "a \<in> set g" "b \<in> set (concat G)" by auto
    with Cons.prems(1) show ?thesis by (auto simp: sorted_wrt_append)
  next
    case (Suc i)
    with Cons.prems j' show ?thesis
      by (intro Cons.IH [of i i']) (auto simp: sorted_wrt_append)
  qed
qed

definition blockFirst :: "ientry list list \<Rightarrow> nat \<Rightarrow> bytes" where
  "blockFirst G j = fst (hd (G ! j))"

lemma blockFirst_mono:
  assumes "okLayout G" and "j < j'" and "j' < length G"
  shows "blockFirst G j < blockFirst G j'"
proof -
  from assms have "G ! j \<noteq> []" "G ! j' \<noteq> []" by (auto simp: okLayout_def okBlock_def)
  then have "hd (G ! j) \<in> set (G ! j)" "hd (G ! j') \<in> set (G ! j')" by simp_all
  with sorted_concat_blocks [of "\<lambda>a b. fst a < fst b" G j j'] assms
  show ?thesis by (simp add: okLayout_def blockFirst_def)
qed

subsection \<open>The block search\<close>

lemma binarySearch0_layout:
  assumes G: "okLayout G" and f: "keyFile ds = layoutFile G"
  shows "0 \<le> lo \<Longrightarrow> lo \<le> hi \<Longrightarrow> hi < int (length G) \<Longrightarrow> length buf = keyBlockSize \<Longrightarrow>
     \<exists>r buf'. binarySearch0 ds lo hi key buf = Returns (r, buf') \<and> length buf' = keyBlockSize
        \<and> lo \<le> r \<and> r \<le> hi
        \<and> (r < hi \<longrightarrow> key < blockFirst G (nat r + 1))
        \<and> (lo < r \<longrightarrow> \<not> key < blockFirst G (nat r))"
proof (induction "nat (hi - lo)" arbitrary: lo hi buf rule: less_induct)
  case less
  have rd: "\<And>j b. 0 \<le> j \<Longrightarrow> j < int (length G) \<Longrightarrow> length b = keyBlockSize \<Longrightarrow>
      fst (ReadAt (keyFile ds) b (j * int keyBlockSize)) = renderBlock (G ! nat j)
      \<and> firstKey (renderBlock (G ! nat j)) = Returns (blockFirst G (nat j))
      \<and> length (renderBlock (G ! nat j)) = keyBlockSize"
  proof -
    fix j :: int and b :: bytes
    assume j: "0 \<le> j" "j < int (length G)" and b: "length b = keyBlockSize"
    then have n: "nat j < length G" by simp
    from ReadAt_layoutFile [OF G n b] j(1)
    have "fst (ReadAt (keyFile ds) b (j * int keyBlockSize)) = renderBlock (G ! nat j)"
      by (simp add: f)
    moreover from G n have ok: "okBlock (G ! nat j)" by (simp add: okLayout_def)
    ultimately show "fst (ReadAt (keyFile ds) b (j * int keyBlockSize)) = renderBlock (G ! nat j)
      \<and> firstKey (renderBlock (G ! nat j)) = Returns (blockFirst G (nat j))
      \<and> length (renderBlock (G ! nat j)) = keyBlockSize"
      by (simp add: firstKey_renderBlock length_renderBlock blockFirst_def)
  qed
  show ?case
  proof (cases "hi - lo \<le> 1")
    case True
    from less.prems have "0 \<le> hi" by simp
    note r = rd [OF this less.prems(3,4)]
    have eq: "binarySearch0 ds lo hi key buf =
        (if key < blockFirst G (nat hi) then Returns (lo, renderBlock (G ! nat hi))
         else Returns (hi, renderBlock (G ! nat hi)))"
      using True r by (subst binarySearch0.simps) (simp add: Let_def)
    show ?thesis
    proof (cases "key < blockFirst G (nat hi)")
      case lt: True
      have "lo < hi \<longrightarrow> nat lo + 1 = nat hi" using True less.prems by auto
      with eq lt r less.prems show ?thesis by auto
    next
      case False
      with eq r less.prems show ?thesis by auto
    qed
  next
    case False
    define block where "block = (hi - lo) div 2 + lo"
    from False have b: "lo < block" "block < hi" by (auto simp: block_def)
    with less.prems have b0: "0 \<le> block" "block < int (length G)" by auto
    note r = rd [OF b0 less.prems(4)]
    have eq: "binarySearch0 ds lo hi key buf =
        (if key < blockFirst G (nat block)
         then binarySearch0 ds lo block key (renderBlock (G ! nat block))
         else binarySearch0 ds block hi key (renderBlock (G ! nat block)))"
      using False r by (subst binarySearch0.simps) (simp add: Let_def block_def)
    show ?thesis
    proof (cases "key < blockFirst G (nat block)")
      case lt: True
      have m: "nat (block - lo) < nat (hi - lo)" using b by simp
      have lb: "lo \<le> block" using b by simp
      have len: "length (renderBlock (G ! nat block)) = keyBlockSize" using r by simp
      from less.hyps [OF m less.prems(1) lb b0(2) len]
      obtain r' buf' where
        res: "binarySearch0 ds lo block key (renderBlock (G ! nat block)) = Returns (r', buf')"
        "length buf' = keyBlockSize" "lo \<le> r'" "r' \<le> block"
        "r' < block \<longrightarrow> key < blockFirst G (nat r' + 1)"
        "lo < r' \<longrightarrow> \<not> key < blockFirst G (nat r')"
        by blast
      have "r' < hi \<longrightarrow> key < blockFirst G (nat r' + 1)"
      proof (cases "r' < block")
        case True
        with res(5) show ?thesis by simp
      next
        case False
        with res(4) have e: "r' = block" by simp
        have "nat block < nat block + 1" "nat block + 1 < length G"
          using b b0 less.prems by auto
        from blockFirst_mono [OF G this] lt have "key < blockFirst G (nat block + 1)"
          by (rule less_trans [rotated])
        with e show ?thesis by simp
      qed
      with eq lt res b show ?thesis by auto
    next
      case ge: False
      have m: "nat (hi - block) < nat (hi - lo)" using b by simp
      have bl: "block \<le> hi" using b by simp
      have len: "length (renderBlock (G ! nat block)) = keyBlockSize" using r by simp
      from less.hyps [OF m b0(1) bl less.prems(3) len]
      obtain r' buf' where
        res: "binarySearch0 ds block hi key (renderBlock (G ! nat block)) = Returns (r', buf')"
        "length buf' = keyBlockSize" "block \<le> r'" "r' \<le> hi"
        "r' < hi \<longrightarrow> key < blockFirst G (nat r' + 1)"
        "block < r' \<longrightarrow> \<not> key < blockFirst G (nat r')"
        by blast
      have "lo < r' \<longrightarrow> \<not> key < blockFirst G (nat r')"
        using res(6) ge res(3) by (cases "r' = block") auto
      with eq ge res b show ?thesis by auto
    qed
  qed
qed

subsection \<open>The search in the key index\<close>

lemma sortSearchLoop_spec:
  assumes mono: "\<And>a b. a \<le> b \<Longrightarrow> b < n \<Longrightarrow> f a \<Longrightarrow> f b"
  shows "i \<le> j \<Longrightarrow> j \<le> n \<Longrightarrow> (\<forall>k<i. \<not> f k) \<Longrightarrow> (\<forall>k. j \<le> k \<and> k < n \<longrightarrow> f k) \<Longrightarrow>
     sortSearchLoop i j f \<le> n \<and> (\<forall>k < sortSearchLoop i j f. \<not> f k)
       \<and> (sortSearchLoop i j f < n \<longrightarrow> f (sortSearchLoop i j f))"
proof (induction "j - i" arbitrary: i j rule: less_induct)
  case less
  show ?case
  proof (cases "i < j")
    case False
    then have eq: "sortSearchLoop i j f = i" by (subst sortSearchLoop.simps) simp
    from False less.prems(1) have "i = j" by simp
    with less.prems show ?thesis unfolding eq by simp
  next
    case True
    define h where "h = (i + j) div 2"
    from True have h: "i \<le> h" "h < j" by (auto simp: h_def)
    show ?thesis
    proof (cases "f h")
      case fh: True
      have eq: "sortSearchLoop i j f = sortSearchLoop i h f"
        using True fh by (subst sortSearchLoop.simps) (simp add: h_def Let_def)
      have up: "\<forall>k. h \<le> k \<and> k < n \<longrightarrow> f k"
        using fh mono by blast
      have m: "h - i < j - i" using h by simp
      have hn: "h \<le> n" using h less.prems(2) by simp
      from less.hyps [OF m h(1) hn less.prems(3) up] show ?thesis unfolding eq .
    next
      case nfh: False
      have eq: "sortSearchLoop i j f = sortSearchLoop (h + 1) j f"
        using True nfh by (subst sortSearchLoop.simps) (simp add: h_def Let_def)
      have hn: "h < n" using h less.prems(2) by simp
      have lo: "\<forall>k<h + 1. \<not> f k"
      proof (intro allI impI)
        fix k assume "k < h + 1"
        then have "k \<le> h" by simp
        with hn nfh mono show "\<not> f k" by blast
      qed
      have m: "j - (h + 1) < j - i" using h by simp
      have hj: "h + 1 \<le> j" using h by simp
      from less.hyps [OF m hj less.prems(2) lo less.prems(4)] show ?thesis unfolding eq .
    qed
  qed
qed

lemma sortSearch_spec:
  assumes "\<forall>a b. a \<le> b \<and> b < n \<and> f a \<longrightarrow> f b"
  shows "sortSearch n f \<le> n" and "\<And>k. k < sortSearch n f \<Longrightarrow> \<not> f k"
    and "sortSearch n f < n \<Longrightarrow> f (sortSearch n f)"
proof -
  have "sortSearchLoop 0 n f \<le> n \<and> (\<forall>k < sortSearchLoop 0 n f. \<not> f k)
       \<and> (sortSearchLoop 0 n f < n \<longrightarrow> f (sortSearchLoop 0 n f))"
    using assms by (intro sortSearchLoop_spec) auto
  then show "sortSearch n f \<le> n" and "\<And>k. k < sortSearch n f \<Longrightarrow> \<not> f k"
    and "sortSearch n f < n \<Longrightarrow> f (sortSearch n f)"
    unfolding sortSearch_def by blast+
qed

subsection \<open>The block that holds a key\<close>

lemma sorted_wrt_concat_block: "sorted_wrt P (concat G) \<Longrightarrow> g \<in> set G \<Longrightarrow> sorted_wrt P g"
  by (induction G) (auto simp: sorted_wrt_append)

lemma sorted_wrt_hd: "sorted_wrt P g \<Longrightarrow> e \<in> set g \<Longrightarrow> e = hd g \<or> P (hd g) e"
  by (cases g) auto

lemma layout_distinct: "okLayout G \<Longrightarrow> distinct (map fst (concat G))"
proof -
  assume "okLayout G"
  then have "sorted_wrt (<) (map fst (concat G))" by (simp add: okLayout_def sorted_wrt_map)
  then show ?thesis by (simp add: strict_sorted_iff)
qed

lemma layout_block_distinct:
  assumes "okLayout G" and "r < length G"
  shows "distinct (map fst (G ! r))"
proof -
  from assms have "sorted_wrt (\<lambda>a b. fst a < fst b) (G ! r)"
    by (auto simp: okLayout_def intro: sorted_wrt_concat_block)
  then have "sorted_wrt (<) (map fst (G ! r))" by (simp add: sorted_wrt_map)
  then show ?thesis by (simp add: strict_sorted_iff)
qed

text \<open>Every key of block \<open>j\<close> is at least the first key of the block.\<close>

lemma blockFirst_le:
  assumes G: "okLayout G" and j: "j < length G" and e: "e \<in> set (G ! j)"
  shows "\<not> fst e < blockFirst G j"
proof -
  from G j have "sorted_wrt (\<lambda>a b. fst a < fst b) (G ! j)"
    by (auto simp: okLayout_def intro: sorted_wrt_concat_block)
  from sorted_wrt_hd [OF this e] show ?thesis by (auto simp: blockFirst_def)
qed

lemma key_in_block:
  assumes G: "okLayout G" and r: "r < length G"
    and lo: "0 < r \<longrightarrow> \<not> key < blockFirst G r"
    and hi: "r + 1 < length G \<longrightarrow> key < blockFirst G (r + 1)"
    and e: "e \<in> set (concat G)" and k: "fst e = key"
  shows "e \<in> set (G ! r)"
proof -
  from e obtain g where "g \<in> set G" "e \<in> set g" by auto
  then obtain j where j: "j < length G" "e \<in> set (G ! j)"
    by (metis in_set_conv_nth)
  from G have srt: "sorted_wrt (\<lambda>a b. fst a < fst b) (concat G)" by (simp add: okLayout_def)
  from G r have "G ! r \<noteq> []" by (auto simp: okLayout_def okBlock_def)
  then have hr: "hd (G ! r) \<in> set (G ! r)" by simp
  have "j = r"
  proof (rule ccontr)
    assume "j \<noteq> r"
    then consider "j < r" | "r < j" by arith
    then show False
    proof cases
      case 1
      from sorted_concat_blocks [OF srt 1 r j(2) hr] k have "key < blockFirst G r"
        by (simp add: blockFirst_def)
      with lo 1 show False by simp
    next
      case 2
      then have r1: "r + 1 < length G" using j by simp
      with hi have lt: "key < blockFirst G (r + 1)" by simp
      show False
      proof (cases "j = r + 1")
        case True
        with blockFirst_le [OF G j] k lt show False by simp
      next
        case False
        with 2 have jj: "r + 1 < j" by simp
        from G r1 have "G ! (r + 1) \<noteq> []" by (auto simp: okLayout_def okBlock_def)
        then have "hd (G ! (r + 1)) \<in> set (G ! (r + 1))" by simp
        from sorted_concat_blocks [OF srt jj j(1) this j(2)] k
        have "blockFirst G (r + 1) < key" by (simp add: blockFirst_def)
        with lt show False by simp
      qed
    qed
  qed
  with j show ?thesis by simp
qed

lemma map_of_block:
  assumes G: "okLayout G" and r: "r < length G"
    and lo: "0 < r \<longrightarrow> \<not> key < blockFirst G r"
    and hi: "r + 1 < length G \<longrightarrow> key < blockFirst G (r + 1)"
  shows "map_of (concat G) key = map_of (G ! r) key"
proof -
  have "G ! r \<in> set G" using r by simp
  then have sub: "set (G ! r) \<subseteq> set (concat G)" by auto
  have "\<And>v. map_of (concat G) key = Some v \<longleftrightarrow> map_of (G ! r) key = Some v"
  proof -
    fix v
    have "map_of (concat G) key = Some v \<longleftrightarrow> (key, v) \<in> set (concat G)"
      using layout_distinct [OF G] by simp
    also have "\<dots> \<longleftrightarrow> (key, v) \<in> set (G ! r)"
      using key_in_block [OF G r lo hi, of "(key, v)"] sub by auto
    also have "\<dots> \<longleftrightarrow> map_of (G ! r) key = Some v"
      using layout_block_distinct [OF G r] by simp
    finally show "map_of (concat G) key = Some v \<longleftrightarrow> map_of (G ! r) key = Some v" .
  qed
  then show ?thesis by (metis not_Some_eq)
qed

lemma key_below_first:
  assumes G: "okLayout G" and lt: "key < blockFirst G 0"
  shows "map_of (concat G) key = None"
proof (rule ccontr)
  assume "map_of (concat G) key \<noteq> None"
  then obtain e where e: "e \<in> set (concat G)" "fst e = key"
    by (auto simp: map_of_eq_None_iff)
  from G have r: "0 < length G" by (simp add: okLayout_def)
  have hi: "0 + 1 < length G \<longrightarrow> key < blockFirst G (0 + 1)"
  proof
    assume "0 + 1 < length G"
    then have "blockFirst G 0 < blockFirst G (0 + 1)" by (intro blockFirst_mono [OF G]) simp_all
    with lt show "key < blockFirst G (0 + 1)" by (rule less_trans)
  qed
  from key_in_block [OF G r _ hi e] have "e \<in> set (G ! 0)" by simp
  from blockFirst_le [OF G r this] e(2) lt show False by simp
qed

lemma scanBlock_layout:
  assumes G: "okLayout G" and f: "keyFile ds = layoutFile G" and r: "r < length G"
    and buf: "length buf = keyBlockSize"
  shows "scanBlock ds (int r) key buf = scanResult (map_of (G ! r) key)"
proof -
  from G r have ok: "okBlock (G ! r)" by (simp add: okLayout_def)
  have "drop 0 (renderBlock (G ! r)) = blockBytes None (G ! r) @ PutUint16 endOfBlock
      @ replicate (keyBlockSize - (length (blockBytes None (G ! r)) + 2)) 0"
    by (simp add: renderBlock_def)
  from scanLoop_block [OF this] ok
  have "scanLoop (renderBlock (G ! r)) 0 None key = scanResult (map_of (G ! r) key)"
    by (simp add: okBlock_def)
  with ReadAt_layoutFile [OF G r buf] show ?thesis
    by (simp add: scanBlock_def f)
qed

subsection \<open>binarySearch on a laid out key file\<close>

definition okIndex :: "ientry list list \<Rightarrow> bytes list \<Rightarrow> bool" where
  "okIndex G idx \<longleftrightarrow>
     length idx = (length G + 1) div 2 \<and> (\<forall>i < length idx. idx ! i = blockFirst G (2 * i))"

lemma okIndex_mono:
  assumes G: "okLayout G" and idx: "okIndex G idx"
    and ab: "a \<le> b" "b < length idx" and ka: "key < idx ! a"
  shows "key < idx ! b"
proof (cases "a = b")
  case True
  with ka show ?thesis by simp
next
  case False
  with ab have "2 * a < 2 * b" "2 * b < length G" using idx by (auto simp: okIndex_def)
  from blockFirst_mono [OF G this] have "idx ! a < idx ! b"
    using idx ab by (simp add: okIndex_def)
  with ka show ?thesis by (rule less_trans)
qed

lemma search_band:
  assumes G: "okLayout G" and f: "keyFile ds = layoutFile G"
    and lo: "lo < length G" and hi: "lo \<le> hi" "hi < length G"
    and klo: "0 < lo \<longrightarrow> \<not> key < blockFirst G lo"
    and khi: "hi + 1 < length G \<longrightarrow> key < blockFirst G hi"
    and buf: "length buf = keyBlockSize"
  shows "(case binarySearch0 ds (int lo) (int hi) key buf of
            Panics m \<Rightarrow> Panics m
          | Returns (block, buffer') \<Rightarrow> scanBlock ds block key buffer')
         = scanResult (map_of (concat G) key)"
proof -
  from binarySearch0_layout [OF G f, of "int lo" "int hi" buf key] hi buf
  obtain r buf' where res: "binarySearch0 ds (int lo) (int hi) key buf = Returns (r, buf')"
    "length buf' = keyBlockSize" "int lo \<le> r" "r \<le> int hi"
    "r < int hi \<longrightarrow> key < blockFirst G (nat r + 1)"
    "int lo < r \<longrightarrow> \<not> key < blockFirst G (nat r)"
    by auto
  define n where "n = nat r"
  from res(3,4) have r: "r = int n" and n: "lo \<le> n" "n \<le> hi" by (auto simp: n_def)
  from n hi have nl: "n < length G" by simp
  have c1: "0 < n \<longrightarrow> \<not> key < blockFirst G n"
  proof (cases "lo < n")
    case True
    with res(6) show ?thesis by (simp add: r)
  next
    case False
    with n have "n = lo" by simp
    with klo show ?thesis by simp
  qed
  have c2: "n + 1 < length G \<longrightarrow> key < blockFirst G (n + 1)"
  proof (cases "n < hi")
    case True
    with res(5) show ?thesis by (simp add: r)
  next
    case False
    with n have e: "n = hi" by simp
    show ?thesis
    proof
      assume "n + 1 < length G"
      with khi e have "key < blockFirst G n" by simp
      with c1 have "n = 0" by auto
      with e n have "lo = hi" by simp
      with res(6) e have "\<not> lo < hi" by simp
      have "blockFirst G n < blockFirst G (n + 1)"
        using \<open>n + 1 < length G\<close> by (intro blockFirst_mono [OF G]) simp_all
      with \<open>key < blockFirst G n\<close> show "key < blockFirst G (n + 1)" by (rule less_trans)
    qed
  qed
  from map_of_block [OF G nl c1 c2] scanBlock_layout [OF G f nl res(2), of key] res(1)
  show ?thesis by (simp add: r)
qed

lemma binarySearch_layout:
  assumes G: "okLayout G" and f: "keyFile ds = layoutFile G"
    and kb: "keyBlocks ds = int (length G)"
    and idx: "case keyIndex ds of None \<Rightarrow> True | Some idx \<Rightarrow> okIndex G idx"
  shows "binarySearch ds key = scanResult (map_of (concat G) key)"
proof (cases "keyIndex ds")
  case None
  from G have l: "0 < length G" by (simp add: okLayout_def)
  have "(case binarySearch0 ds (int 0) (int (length G - 1)) key (replicate keyBlockSize 0) of
            Panics m \<Rightarrow> Panics m
          | Returns (block, buffer') \<Rightarrow> scanBlock ds block key buffer')
         = scanResult (map_of (concat G) key)"
    using l by (intro search_band [OF G f]) simp_all
  moreover have "keyBlocks ds - 1 = int (length G - 1)" using l kb by linarith
  ultimately show ?thesis using None by (simp add: binarySearch_def Let_def)
next
  case (Some ix)
  with idx have ix: "okIndex G ix" by simp
  from G have l: "0 < length G" by (simp add: okLayout_def)
  with ix have lix: "0 < length ix" by (simp add: okIndex_def)
  define index where "index = sortSearch (length ix) (\<lambda>i. key < ix ! i)"
  have mono: "\<forall>a b. a \<le> b \<and> b < length ix \<and> key < ix ! a \<longrightarrow> key < ix ! b"
    using okIndex_mono [OF G ix] by blast
  note ss = sortSearch_spec [of "length ix" "\<lambda>i. key < ix ! i", OF mono, folded index_def]
  show ?thesis
  proof (cases "index = 0")
    case True
    with ss(3) lix have "key < ix ! 0" by simp
    with ix lix have "key < blockFirst G 0" by (simp add: okIndex_def)
    from key_below_first [OF G this] True Some show ?thesis
      by (simp add: binarySearch_def Let_def index_def scanResult_def)
  next
    case False
    define i0 where "i0 = index - 1"
    from False have i0: "i0 < index" "index = i0 + 1" by (auto simp: i0_def)
    with ss(1) have i0l: "i0 < length ix" by simp
    from ss(2) [OF i0(1)] ix i0l have klo: "\<not> key < blockFirst G (2 * i0)"
      by (simp add: okIndex_def)
    from i0l ix have lo: "2 * i0 < length G" by (auto simp: okIndex_def)
    define hi where "hi = (if 2 * i0 + 2 \<ge> length G then length G - 1 else 2 * i0 + 2)"
    have hi: "2 * i0 \<le> hi" "hi < length G" using lo by (auto simp: hi_def)
    have khi: "hi + 1 < length G \<longrightarrow> key < blockFirst G hi"
    proof
      assume a: "hi + 1 < length G"
      then have h: "hi = 2 * index" by (auto simp: hi_def i0(2) split: if_splits)
      with a have "index < length ix" using ix by (auto simp: okIndex_def)
      with ss(3) have "key < ix ! index" by simp
      with ix \<open>index < length ix\<close> h show "key < blockFirst G hi" by (simp add: okIndex_def)
    qed
    have band: "(case binarySearch0 ds (int (2 * i0)) (int hi) key (replicate keyBlockSize 0) of
            Panics m \<Rightarrow> Panics m
          | Returns (block, buffer') \<Rightarrow> scanBlock ds block key buffer')
         = scanResult (map_of (concat G) key)"
      using klo by (intro search_band [OF G f lo hi _ khi]) simp_all
    have e1: "int ((index - 1) * keyIndexInterval) = int (2 * i0)"
      by (simp add: keyIndexInterval_def i0_def)
    have e2: "(if int (2 * i0) + int keyIndexInterval \<ge> keyBlocks ds then keyBlocks ds - 1
               else int (2 * i0) + int keyIndexInterval) = int hi"
    proof (cases "length G \<le> 2 * i0 + 2")
      case True
      then have c: "int (2 * i0) + int keyIndexInterval \<ge> keyBlocks ds"
        unfolding kb keyIndexInterval_def by linarith
      from True have "hi = length G - 1" by (simp add: hi_def)
      moreover have "int (length G) - 1 = int (length G - 1)" using l by linarith
      ultimately have "keyBlocks ds - 1 = int hi" by (simp only: kb)
      with c show ?thesis by (simp only: if_True)
    next
      case False
      then have c: "\<not> int (2 * i0) + int keyIndexInterval \<ge> keyBlocks ds"
        unfolding kb keyIndexInterval_def by linarith
      have "int (2 * i0) + int keyIndexInterval = int hi"
        using False unfolding hi_def keyIndexInterval_def by simp
      with c show ?thesis by (simp only: if_False)
    qed
    have "binarySearch ds key =
        (case (if index = 0 then None
               else Some (int ((index - 1) * keyIndexInterval),
                          if int ((index - 1) * keyIndexInterval) + int keyIndexInterval \<ge> keyBlocks ds
                          then keyBlocks ds - 1
                          else int ((index - 1) * keyIndexInterval) + int keyIndexInterval)) of
           None \<Rightarrow> Returns (0, 0, Some KeyNotFound)
         | Some (lowblock, highblock) \<Rightarrow>
             (case binarySearch0 ds lowblock highblock key (replicate keyBlockSize 0) of
                Panics m \<Rightarrow> Panics m
              | Returns (block, buffer') \<Rightarrow> scanBlock ds block key buffer'))"
      by (simp only: binarySearch_def Some option.case Let_def index_def)
    also have "\<dots> = scanResult (map_of (concat G) key)"
      by (simp only: False if_False e1 e2 option.case prod.case band)
    finally show ?thesis .
  qed
qed

section \<open>The writer produces a laid out key file\<close>

definition lastKey :: "bytes option \<Rightarrow> ientry list \<Rightarrow> bytes option" where
  "lastKey prev es = (if es = [] then prev else Some (fst (last es)))"

lemma blockBytes_snoc:
  "blockBytes prev (es @ [e]) = blockBytes prev es @ entryBytes (lastKey prev es) e"
  by (induction es arbitrary: prev) (auto simp: lastKey_def)

lemma okKeys_snoc: "okKeys prev (es @ [e]) \<longleftrightarrow> okKeys prev es \<and> okKey (lastKey prev es) (fst e)"
  by (induction es arbitrary: prev) (auto simp: lastKey_def)

lemma blockFirst_append_block:
  "j < length G \<Longrightarrow> blockFirst (G @ [c]) j = blockFirst G j"
  by (simp add: blockFirst_def nth_append)

lemma okIndex_grow:
  assumes "okIndex (gs @ [cur]) idx" and "cur \<noteq> []"
  shows "okIndex (gs @ [cur @ [e]]) idx"
proof -
  have bf: "\<And>j. j < length gs + 1 \<Longrightarrow> blockFirst (gs @ [cur @ [e]]) j = blockFirst (gs @ [cur]) j"
    using assms(2) by (auto simp: blockFirst_def nth_append less_Suc_eq)
  have "\<forall>i < length idx. idx ! i = blockFirst (gs @ [cur @ [e]]) (2 * i)"
  proof (intro allI impI)
    fix i assume i: "i < length idx"
    with assms(1) have "2 * i < length gs + 1" by (auto simp: okIndex_def)
    from bf [OF this] i assms(1) show "idx ! i = blockFirst (gs @ [cur @ [e]]) (2 * i)"
      by (simp add: okIndex_def)
  qed
  with assms(1) show ?thesis by (simp add: okIndex_def)
qed

lemma okIndex_new_even:
  assumes "okIndex G idx" and "length G mod 2 = 0"
  shows "okIndex (G @ [c]) (idx @ [fst (hd c)])"
proof -
  from assms have len: "length idx = length G div 2" "2 * length idx = length G"
    by (auto simp: okIndex_def)
  have "\<forall>i < length (idx @ [fst (hd c)]). (idx @ [fst (hd c)]) ! i = blockFirst (G @ [c]) (2 * i)"
  proof (intro allI impI)
    fix i assume i: "i < length (idx @ [fst (hd c)])"
    show "(idx @ [fst (hd c)]) ! i = blockFirst (G @ [c]) (2 * i)"
    proof (cases "i < length idx")
      case True
      with len have "2 * i < length G" by simp
      with True assms(1) show ?thesis
        by (simp add: nth_append okIndex_def blockFirst_append_block)
    next
      case False
      with i have "i = length idx" by simp
      with len show ?thesis by (simp add: nth_append blockFirst_def)
    qed
  qed
  moreover have "length (idx @ [fst (hd c)]) = (length (G @ [c]) + 1) div 2"
    using len by simp
  ultimately show ?thesis unfolding okIndex_def by blast
qed

lemma okIndex_new_odd:
  assumes "okIndex G idx" and "length G mod 2 \<noteq> 0"
  shows "okIndex (G @ [c]) idx"
proof -
  from assms have len: "length idx = (length G + 1) div 2" by (simp add: okIndex_def)
  have l2: "length idx = (length (G @ [c]) + 1) div 2" using len assms(2) by simp presburger
  have "\<forall>i < length idx. idx ! i = blockFirst (G @ [c]) (2 * i)"
  proof (intro allI impI)
    fix i assume i: "i < length idx"
    with len have "2 * i < length G" by auto
    with i assms(1) show "idx ! i = blockFirst (G @ [c]) (2 * i)"
      by (simp add: okIndex_def blockFirst_append_block)
  qed
  with l2 show ?thesis unfolding okIndex_def by blast
qed

text \<open>
  The state of the writer after at least one entry: the blocks completed so far, and the
  entries of the block being filled.
\<close>

definition winv :: "writer \<Rightarrow> ientry list list \<Rightarrow> ientry list \<Rightarrow> bool" where
  "winv w gs cur \<longleftrightarrow>
     cur \<noteq> [] \<and> (\<forall>g \<in> set gs. okBlock g) \<and> okKeys None cur
     \<and> keyW w = layoutFile gs @ blockBytes None cur
     \<and> keyBlockLen w = length (blockBytes None cur)
     \<and> keyBlockLen w + 2 < keyBlockSize
     \<and> prevKeyW w = Some (fst (last cur))
     \<and> blockCount w = length gs + 1
     \<and> okIndex (gs @ [cur]) (keyIndexW w)"

definition valueBytes :: "bytes option \<Rightarrow> bytes" where
  "valueBytes v = (case v of None \<Rightarrow> [] | Some b \<Rightarrow> b)"

definition nextOffset :: "64 word \<Rightarrow> bytes option \<Rightarrow> 64 word" where
  "nextOffset off v = (if v \<noteq> None then off + ucast (dataLenOf v) else off)"

lemma length_entryBytes_bounds:
  "14 \<le> length (entryBytes prev (k, off, len))"
  "length (entryBytes prev (k, off, len)) \<le> length k + 14"
  using length_compressedKey_le [of k prev] by (simp_all add: length_entryBytes)

lemma writeEntry_first:
  assumes k: "k \<noteq> []" "length k \<le> maxKeySize"
  shows "\<exists>w'. writeEntry newWriter (k, v) = Returns w'
     \<and> winv w' [] [(k, 0, dataLenOf v)]
     \<and> dataW w' = valueBytes v \<and> dataOffset w' = nextOffset 0 v \<and> keyCount w' = 1"
proof -
  have ok: "okKey None k" using k by (simp add: okKey_def)
  have fit: "\<not> 0 + 2 + length k + 8 + 4 \<ge> keyBlockSize - 2"
    using k by (simp add: keyBlockSize_def maxKeySize_def)
  have enc: "encodeKey k None = \<lparr>keylen = of_nat (length k), compressedKey = k\<rparr>"
    by (simp add: encodeKey_def calculatePrefixLen_def)
  have idx: "okIndex [[(k, 0, dataLenOf v)]] [k]"
    by (simp add: okIndex_def blockFirst_def)
  from k have small: "length k + 14 + 2 < keyBlockSize"
    by (simp add: keyBlockSize_def maxKeySize_def)
  show ?thesis
    using fit ok idx small
    by (simp add: writeEntry_def newWriter_def Let_def winv_def layoutFile_def entryBytes_def enc
        valueBytes_def nextOffset_def keyIndexInterval_def)
qed

lemma writeEntry_step:
  assumes inv: "winv w gs cur" and k: "k \<noteq> []" "length k \<le> maxKeySize"
    and lt: "fst (last cur) < k"
  shows "\<exists>w' gs' cur'. writeEntry w (k, v) = Returns w' \<and> winv w' gs' cur'
     \<and> concat gs' @ cur' = concat gs @ cur @ [(k, dataOffset w, dataLenOf v)]
     \<and> dataW w' = dataW w @ valueBytes v
     \<and> dataOffset w' = nextOffset (dataOffset w) v
     \<and> keyCount w' = keyCount w + 1"
proof -
  let ?e = "(k, dataOffset w, dataLenOf v)"
  from inv have cur: "cur \<noteq> []" and gs: "\<forall>g \<in> set gs. okBlock g" and oks: "okKeys None cur"
    and kw: "keyW w = layoutFile gs @ blockBytes None cur"
    and kbl: "keyBlockLen w = length (blockBytes None cur)"
    and room: "keyBlockLen w + 2 < keyBlockSize"
    and pk: "prevKeyW w = Some (fst (last cur))"
    and bc: "blockCount w = length gs + 1"
    and ix: "okIndex (gs @ [cur]) (keyIndexW w)"
    by (simp_all add: winv_def)
  show ?thesis
  proof (cases "keyBlockLen w + 2 + length k + 8 + 4 \<ge> keyBlockSize - 2")
    case True
    let ?w1 = "w\<lparr>keyCount := keyCount w + 1, dataW := dataW w @ valueBytes v\<rparr>"
    have eb: "endBlock ?w1 = Returns (?w1\<lparr>keyW := layoutFile (gs @ [cur]), keyBlockLen := 0\<rparr>)"
      using room by (simp add: endBlock_def Let_def kw kbl layoutFile_def renderBlock_def)
    have okc: "okBlock cur" using cur oks room kbl by (simp add: okBlock_def)
    have ok: "okKey None k" using k by (simp add: okKey_def)
    have enc: "encodeKey k None = \<lparr>keylen = of_nat (length k), compressedKey = k\<rparr>"
      by (simp add: encodeKey_def calculatePrefixLen_def)
    define idx' where "idx' = (if (length gs + 1) mod 2 = 0 then keyIndexW w @ [k] else keyIndexW w)"
    have ix': "okIndex ((gs @ [cur]) @ [[?e]]) idx'"
    proof (cases "(length gs + 1) mod 2 = 0")
      case e: True
      with okIndex_new_even [OF ix, of "[?e]"] show ?thesis by (simp add: idx'_def)
    next
      case o: False
      with okIndex_new_odd [OF ix, of "[?e]"] show ?thesis by (simp add: idx'_def)
    qed
    from k have small: "length k + 14 + 2 < keyBlockSize"
      by (simp add: keyBlockSize_def maxKeySize_def)
    define w' where "w' = ?w1\<lparr>keyW := layoutFile (gs @ [cur]) @ entryBytes None ?e,
        keyBlockLen := 2 + length k + 12, prevKeyW := Some k,
        keyIndexW := idx', blockCount := length gs + 2,
        dataOffset := nextOffset (dataOffset w) v\<rparr>"
    have we: "writeEntry w (k, v) = Returns w'"
      using True eb
      by (simp add: writeEntry_def Let_def valueBytes_def [symmetric] bc keyIndexInterval_def
          enc entryBytes_def nextOffset_def w'_def idx'_def)
    have "winv w' (gs @ [cur]) [?e]"
      using gs okc ok ix' small
      by (simp add: winv_def w'_def entryBytes_def enc)
    moreover have "dataW w' = dataW w @ valueBytes v" "dataOffset w' = nextOffset (dataOffset w) v"
      "keyCount w' = keyCount w + 1"
      by (simp_all add: w'_def)
    ultimately show ?thesis using we by (intro exI [of _ w'] exI [of _ "gs @ [cur]"] exI [of _ "[?e]"]) simp
  next
    case False
    let ?w1 = "w\<lparr>keyCount := keyCount w + 1, dataW := dataW w @ valueBytes v\<rparr>"
    have nz: "keyBlockLen w \<noteq> 0"
    proof -
      obtain e es where c: "cur = e # es" using cur by (cases cur) auto
      have "14 \<le> length (entryBytes None e)"
        using length_entryBytes_bounds(1) [of None "fst e" "fst (snd e)" "snd (snd e)"] by simp
      then have "entryBytes None e \<noteq> []" by auto
      then have "0 < length (blockBytes None cur)" unfolding c by simp
      then show ?thesis by (simp add: kbl)
    qed
    have lk: "lastKey None cur = Some (fst (last cur))" using cur by (simp add: lastKey_def)
    have ok: "okKey (Some (fst (last cur))) k" using k lt by (simp add: okKey_def)
    let ?dk = "encodeKey k (Some (fst (last cur)))"
    have eb: "entryBytes (Some (fst (last cur))) ?e =
        PutUint16 (keylen ?dk) @ compressedKey ?dk @ PutUint64 (dataOffset w) @ PutUint32 (dataLenOf v)"
      by (simp add: entryBytes_def Let_def)
    define w' where "w' = ?w1\<lparr>keyW := keyW w @ entryBytes (Some (fst (last cur))) ?e,
        keyBlockLen := keyBlockLen w + 2 + length (compressedKey ?dk) + 12,
        prevKeyW := Some k, dataOffset := nextOffset (dataOffset w) v\<rparr>"
    have we: "writeEntry w (k, v) = Returns w'"
      using False nz
      by (simp add: writeEntry_def Let_def valueBytes_def [symmetric] pk eb nextOffset_def w'_def)
    have len: "keyBlockLen w + 2 + length (compressedKey ?dk) + 12 + 2 < keyBlockSize"
      using False length_compressedKey_le [of k "Some (fst (last cur))"]
      by (simp add: keyBlockSize_def)
    have "winv w' gs (cur @ [?e])"
      using gs oks ok len okIndex_grow [OF ix cur, of ?e]
      by (simp add: winv_def w'_def kw kbl blockBytes_snoc okKeys_snoc lk length_entryBytes bc)
    moreover have "dataW w' = dataW w @ valueBytes v" "dataOffset w' = nextOffset (dataOffset w) v"
      "keyCount w' = keyCount w + 1"
      by (simp_all add: w'_def)
    ultimately show ?thesis using we by (intro exI [of _ w'] exI [of _ gs] exI [of _ "cur @ [?e]"]) simp
  qed
qed

fun annotate :: "64 word \<Rightarrow> entry list \<Rightarrow> ientry list" where
  "annotate off [] = []"
| "annotate off (kv # kvs) =
     (fst kv, off, dataLenOf (snd kv)) # annotate (nextOffset off (snd kv)) kvs"

lemma map_fst_annotate [simp]: "map fst (annotate off kvs) = map fst kvs"
  by (induction kvs arbitrary: off) auto

definition okKeyList :: "entry list \<Rightarrow> bool" where
  "okKeyList kvs \<longleftrightarrow> (\<forall>kv \<in> set kvs. fst kv \<noteq> [] \<and> length (fst kv) \<le> maxKeySize)"

lemma writeLoop_inv:
  assumes "winv w gs cur" and "sorted_wrt (<) (fst (last cur) # map fst kvs)" and "okKeyList kvs"
  shows "\<exists>w' gs' cur'. writeLoop w kvs = Returns w' \<and> winv w' gs' cur'
     \<and> concat gs' @ cur' = concat gs @ cur @ annotate (dataOffset w) kvs
     \<and> dataW w' = dataW w @ concat (map (\<lambda>kv. valueBytes (snd kv)) kvs)
     \<and> keyCount w' = keyCount w + length kvs"
  using assms
proof (induction kvs arbitrary: w gs cur)
  case Nil
  then show ?case by auto
next
  case (Cons kv kvs)
  obtain k v where kv: "kv = (k, v)" by (cases kv) auto
  from Cons.prems(3) kv have k: "k \<noteq> []" "length k \<le> maxKeySize" and rest: "okKeyList kvs"
    by (auto simp: okKeyList_def)
  from Cons.prems(2) kv have lt: "fst (last cur) < k" and srt: "sorted_wrt (<) (k # map fst kvs)"
    by auto
  from writeEntry_step [OF Cons.prems(1) k lt, of v]
  obtain w1 gs1 cur1 where s: "writeEntry w (k, v) = Returns w1" "winv w1 gs1 cur1"
    "concat gs1 @ cur1 = concat gs @ cur @ [(k, dataOffset w, dataLenOf v)]"
    "dataW w1 = dataW w @ valueBytes v" "dataOffset w1 = nextOffset (dataOffset w) v"
    "keyCount w1 = keyCount w + 1"
    by blast
  from s(2) have "cur1 \<noteq> []" by (simp add: winv_def)
  with s(3) have "last cur1 = (k, dataOffset w, dataLenOf v)"
    by (metis last_appendR last_snoc append_assoc)
  with srt have srt1: "sorted_wrt (<) (fst (last cur1) # map fst kvs)" by simp
  from Cons.IH [OF s(2) srt1 rest]
  obtain w' gs' cur' where r: "writeLoop w1 kvs = Returns w'" "winv w' gs' cur'"
    "concat gs' @ cur' = concat gs1 @ cur1 @ annotate (dataOffset w1) kvs"
    "dataW w' = dataW w1 @ concat (map (\<lambda>kv. valueBytes (snd kv)) kvs)"
    "keyCount w' = keyCount w1 + length kvs"
    by blast
  have "writeLoop w (kv # kvs) = Returns w'" using s(1) r(1) kv by simp
  moreover have "concat gs' @ cur' = concat gs @ cur @ annotate (dataOffset w) (kv # kvs)"
    using r(3) s(3) s(5) kv by simp
  moreover have "dataW w' = dataW w @ concat (map (\<lambda>kv. valueBytes (snd kv)) (kv # kvs))"
    using r(4) s(4) kv by simp
  moreover have "keyCount w' = keyCount w + length (kv # kvs)" using r(5) s(6) by simp
  ultimately show ?case using r(2) by blast
qed

text \<open>
  What the writer produces for a non-empty list of entries with valid, strictly
  ascending keys: a key file laid out in blocks, the key index of that layout, and the
  concatenation of the values.
\<close>

lemma writeSegmentBytes_layout:
  assumes ne: "kvs \<noteq> []" and srt: "sorted_wrt (<) (map fst kvs)" and ok: "okKeyList kvs"
  shows "\<exists>G idx. writeSegmentBytes kvs
        = Returns ((Some idx, None), layoutFile G, concat (map (\<lambda>kv. valueBytes (snd kv)) kvs))
     \<and> okLayout G \<and> okIndex G idx \<and> concat G = annotate 0 kvs"
proof -
  from ne obtain k v rest where kvs: "kvs = (k, v) # rest" by (cases kvs) auto
  from ok kvs have k: "k \<noteq> []" "length k \<le> maxKeySize" and okr: "okKeyList rest"
    by (auto simp: okKeyList_def)
  from writeEntry_first [OF k, of v]
  obtain w1 where f: "writeEntry newWriter (k, v) = Returns w1" "winv w1 [] [(k, 0, dataLenOf v)]"
    "dataW w1 = valueBytes v" "dataOffset w1 = nextOffset 0 v" "keyCount w1 = 1"
    by blast
  from srt kvs have s1: "sorted_wrt (<) (fst (last [(k, 0 :: 64 word, dataLenOf v)]) # map fst rest)"
    by simp
  from writeLoop_inv [OF f(2) s1 okr]
  obtain w' gs cur where r: "writeLoop w1 rest = Returns w'" "winv w' gs cur"
    "concat gs @ cur = concat [] @ [(k, 0, dataLenOf v)] @ annotate (dataOffset w1) rest"
    "dataW w' = dataW w1 @ concat (map (\<lambda>kv. valueBytes (snd kv)) rest)"
    "keyCount w' = keyCount w1 + length rest"
    by blast
  define G where "G = gs @ [cur]"
  from r(2) have cur: "cur \<noteq> []" and gs: "\<forall>g \<in> set gs. okBlock g" and oks: "okKeys None cur"
    and kw: "keyW w' = layoutFile gs @ blockBytes None cur"
    and kbl: "keyBlockLen w' = length (blockBytes None cur)"
    and room: "keyBlockLen w' + 2 < keyBlockSize"
    and ix: "okIndex G (keyIndexW w')"
    by (simp_all add: winv_def G_def)
  have wl: "writeLoop newWriter kvs = Returns w'" using f(1) r(1) kvs by simp
  have pos: "0 < keyBlockLen w'"
  proof -
    obtain e es where c: "cur = e # es" using cur by (cases cur) auto
    have "14 \<le> length (entryBytes None e)"
      using length_entryBytes_bounds(1) [of None "fst e" "fst (snd e)" "snd (snd e)"] by simp
    then have "entryBytes None e \<noteq> []" by auto
    then show ?thesis unfolding kbl c by simp
  qed
  have eb: "endBlock w' = Returns (w'\<lparr>keyW := layoutFile G, keyBlockLen := 0\<rparr>)"
    using room by (simp add: endBlock_def Let_def kw kbl layoutFile_def renderBlock_def G_def)
  have cat: "concat G = annotate 0 kvs" using r(3) f(4) kvs by (simp add: G_def)
  have okc: "okBlock cur" using cur oks room kbl by (simp add: okBlock_def)
  have "sorted_wrt (\<lambda>a b. fst a < fst b) (concat G)"
    using srt by (simp add: cat sorted_wrt_map [symmetric])
  with gs okc have G: "okLayout G" by (auto simp: okLayout_def G_def)
  have idxne: "keyIndexW w' \<noteq> []"
  proof -
    have "0 < length G" by (simp add: G_def)
    with ix have "0 < length (keyIndexW w')" unfolding okIndex_def by simp
    then show ?thesis by simp
  qed
  have "writeSegmentBytes kvs
      = Returns ((Some (keyIndexW w'), None), layoutFile G,
                 concat (map (\<lambda>kv. valueBytes (snd kv)) kvs))"
  proof -
    have dw: "dataW w' = concat (map (\<lambda>kv. valueBytes (snd kv)) kvs)"
      using r(4) f(3) kvs by simp
    have kc: "keyCount w' \<noteq> 0" using r(5) f(5) by simp
    have lt: "keyBlockLen w' < keyBlockSize" using room by simp
    show ?thesis
      using pos lt idxne kc by (simp add: writeSegmentBytes_def wl eb dw)
  qed
  with G ix cat show ?thesis by blast
qed

subsection \<open>Values in the data file\<close>

text \<open>What Get does with the data pointer of the entry it found.\<close>

definition readValue :: "bytes \<Rightarrow> 64 word \<times> 32 word \<Rightarrow> (bytes option \<times> error option)" where
  "readValue df p =
     (case p of (off, len) \<Rightarrow>
        if len = removedKeyLen then (None, None)
        else
          (case ReadAt df (replicate (unat len) 0) (sint off) of
             (buffer, n, Some e) \<Rightarrow> (None, Some e)
           | (buffer, n, None) \<Rightarrow> (Some buffer, None)))"

lemma Get_scanResult:
  assumes "binarySearch ds key = scanResult r"
  shows "Get ds key = (case r of None \<Rightarrow> Returns (None, Some KeyNotFound)
                              | Some p \<Rightarrow> Returns (readValue (dataFile ds) p))"
  using assms
  by (cases r) (auto simp: Get_def scanResult_def readValue_def removedKeyLen_def split: prod.splits option.splits)

definition okValue :: "bytes option \<Rightarrow> bool" where
  "okValue v \<longleftrightarrow> (case v of None \<Rightarrow> True | Some b \<Rightarrow> length b < 2 ^ 32 - 1)"

lemma unat_of_nat32: "n < 2 ^ 32 \<Longrightarrow> unat (of_nat n :: 32 word) = n"
  by (simp add: unat_of_nat)

lemma ucast_of_nat32: "n < 2 ^ 32 \<Longrightarrow> (ucast (of_nat n :: 32 word) :: 64 word) = of_nat n"
  by (simp add: unsigned_of_nat take_bit_nat_eq_self)

lemma sint_of_nat64: "n < 2 ^ 63 \<Longrightarrow> sint (of_nat n :: 64 word) = int n"
proof -
  assume n: "n < 2 ^ 63"
  have "sint (of_nat n :: 64 word) = signed_take_bit 63 (int n)"
    by (simp add: signed_of_nat)
  also have "\<dots> = int n"
  proof (rule signed_take_bit_int_eq_self)
    show "- (2 ^ 63) \<le> int n" by simp
    from n have "int n < int (2 ^ 63)" by (simp only: of_nat_less_iff)
    then show "int n < 2 ^ 63" by simp
  qed
  finally show ?thesis .
qed

text \<open>
  The entries of the index, read against the data file, give the values written: \<open>pre\<close> is
  what precedes the values of \<open>kvs\<close> in the data file.
\<close>

lemma readValue_annotate:
  assumes "\<forall>kv \<in> set kvs. okValue (snd kv)"
    and "df = pre @ concat (map (\<lambda>kv. valueBytes (snd kv)) kvs)"
    and "length df < 2 ^ 63"
  shows "map_option (readValue df) (map_of (annotate (of_nat (length pre)) kvs) key)
       = map_option (\<lambda>v. (v, None)) (map_of kvs key)"
  using assms
proof (induction kvs arbitrary: pre)
  case Nil
  then show ?case by simp
next
  case (Cons kv kvs)
  obtain k v where kv: "kv = (k, v)" by (cases kv) auto
  from Cons.prems(1) kv have okv: "okValue v" and okr: "\<forall>kv \<in> set kvs. okValue (snd kv)"
    by auto
  have df: "df = (pre @ valueBytes v) @ concat (map (\<lambda>kv. valueBytes (snd kv)) kvs)"
    using Cons.prems(2) kv by simp
  have pl: "length pre + length (valueBytes v) \<le> length df" unfolding df by simp
  have no: "nextOffset (of_nat (length pre)) v = of_nat (length (pre @ valueBytes v))"
  proof (cases v)
    case None
    then show ?thesis by (simp add: nextOffset_def valueBytes_def)
  next
    case (Some b)
    with okv have "length b < 2 ^ 32" by (simp add: okValue_def)
    then show ?thesis
      using Some by (simp add: nextOffset_def valueBytes_def dataLenOf_def ucast_of_nat32)
  qed
  show ?case
  proof (cases "key = k")
    case False
    with Cons.IH [OF okr df Cons.prems(3)] kv no show ?thesis by simp
  next
    case True
    have "readValue df (of_nat (length pre), dataLenOf v) = (v, None)"
    proof (cases v)
      case None
      then show ?thesis by (simp add: readValue_def dataLenOf_def)
    next
      case (Some b)
      with okv have b: "length b < 2 ^ 32 - 1" by (simp add: okValue_def)
      then have u: "unat (of_nat (length b) :: 32 word) = length b" by (simp add: unat_of_nat32)
      have nr: "(of_nat (length b) :: 32 word) \<noteq> removedKeyLen"
      proof
        assume "(of_nat (length b) :: 32 word) = removedKeyLen"
        then have "unat (of_nat (length b) :: 32 word) = unat removedKeyLen" by simp
        with u b show False by (simp add: removedKeyLen_def)
      qed
      from pl Cons.prems(3) have "length pre < 2 ^ 63" by simp
      then have si: "sint (of_nat (length pre) :: 64 word) = int (length pre)"
        by (rule sint_of_nat64)
      have tk: "take (length b) (drop (length pre) df) = b"
        unfolding df using Some by (simp add: valueBytes_def)
      have le: "length b \<le> length df - length pre" using pl Some by (simp add: valueBytes_def)
      have "ReadAt df (replicate (length b) 0) (int (length pre)) = (b, length b, None)"
        using tk le by (simp add: ReadAt_def Let_def min_def)
      with nr u si Some show ?thesis by (simp add: readValue_def dataLenOf_def)
    qed
    with True kv show ?thesis by simp
  qed
qed

section \<open>Point lookup in a written segment\<close>

text \<open>
  The input the writer is made for: strictly ascending keys of 1 to 1024 bytes, values of at
  most \<open>2^32 - 2\<close> bytes (a nil value is a removed key), and less than \<open>2^63\<close> bytes of
  values in all, so that the offsets fit the \<open>int64\<close> of the data pointer.
\<close>

definition validEntries :: "entry list \<Rightarrow> bool" where
  "validEntries kvs \<longleftrightarrow>
     sorted_wrt (<) (map fst kvs)
     \<and> (\<forall>kv \<in> set kvs. fst kv \<noteq> [] \<and> length (fst kv) \<le> maxKeySize \<and> okValue (snd kv))
     \<and> length (concat (map (\<lambda>kv. valueBytes (snd kv)) kvs)) < 2 ^ 63"

lemma validEntries_keys: "validEntries kvs \<Longrightarrow> sorted_wrt (<) (map fst kvs) \<and> okKeyList kvs"
  by (auto simp: validEntries_def okKeyList_def)

definition getResult :: "bytes option option \<Rightarrow> (bytes option \<times> error option) outcome" where
  "getResult r =
     (case r of None \<Rightarrow> Returns (None, Some KeyNotFound) | Some v \<Rightarrow> Returns (v, None))"

lemma Get_layout:
  assumes G: "okLayout G" and f: "keyFile ds = layoutFile G"
    and kb: "keyBlocks ds = int (length G)"
    and idx: "case keyIndex ds of None \<Rightarrow> True | Some idx \<Rightarrow> okIndex G idx"
    and cat: "concat G = annotate 0 kvs"
    and df: "dataFile ds = concat (map (\<lambda>kv. valueBytes (snd kv)) kvs)"
    and valid: "validEntries kvs"
  shows "Get ds key = getResult (map_of kvs key)"
proof -
  from binarySearch_layout [OF G f kb idx]
  have "binarySearch ds key = scanResult (map_of (annotate 0 kvs) key)" by (simp add: cat)
  from Get_scanResult [OF this]
  have g: "Get ds key = (case map_of (annotate 0 kvs) key of
      None \<Rightarrow> Returns (None, Some KeyNotFound)
    | Some p \<Rightarrow> Returns (readValue (dataFile ds) p))" .
  from valid have okv: "\<forall>kv \<in> set kvs. okValue (snd kv)"
    and len: "length (dataFile ds) < 2 ^ 63"
    by (auto simp: validEntries_def df)
  have "dataFile ds = [] @ concat (map (\<lambda>kv. valueBytes (snd kv)) kvs)" by (simp add: df)
  from readValue_annotate [OF okv this len, of key]
  have r: "map_option (readValue (dataFile ds)) (map_of (annotate 0 kvs) key)
       = map_option (\<lambda>v. (v, None)) (map_of kvs key)" by simp
  show ?thesis
  proof (cases "map_of kvs key")
    case None
    with r have "map_of (annotate 0 kvs) key = None" by simp
    with g None show ?thesis by (simp add: getResult_def)
  next
    case (Some v)
    with r obtain p where "map_of (annotate 0 kvs) key = Some p" "readValue (dataFile ds) p = (v, None)"
      by auto
    with g Some show ?thesis by (simp add: getResult_def)
  qed
qed

lemma keyBlocks_layout:
  assumes "okLayout G"
  shows "(if length (layoutFile G) = 0 then 0
          else (int (length (layoutFile G)) - 1) div int keyBlockSize) + 1 = int (length G)"
proof -
  from assms have n: "0 < length G" by (simp add: okLayout_def)
  have l: "length (layoutFile G) = length G * keyBlockSize" using assms by (rule length_layoutFile)
  from n obtain m where m: "length G = Suc m" by (cases "length G") auto
  have "(int (Suc m * 4096) - 1) div 4096 = int m"
  proof -
    have "int (Suc m * 4096) - 1 = int m * 4096 + 4095" by simp
    then show ?thesis by simp
  qed
  then show ?thesis by (simp add: l m keyBlockSize_def)
qed

text \<open>
  writeAndLoadSegment for a non-empty valid input, when the two temporary files do not
  exist yet and the names do not collide.
\<close>

lemma writeAndLoadSegment_layout:
  assumes ne: "kvs \<noteq> []" and srt: "sorted_wrt (<) (map fst kvs)" and ok: "okKeyList kvs"
    and fresh: "files (keyFilename @ ''.tmp'') = None" "files (dataFilename @ ''.tmp'') = None"
    and names: "keyFilename \<noteq> dataFilename" "dataFilename @ ''.tmp'' \<noteq> keyFilename"
  shows "\<exists>G idx files'. writeAndLoadSegment files keyFilename dataFilename kvs
       = Returns ((Some \<lparr>keyFile = layoutFile G, keyBlocks = int (length G),
                          dataFile = concat (map (\<lambda>kv. valueBytes (snd kv)) kvs),
                          segID = getSegmentID keyFilename, keyIndex = Some idx\<rparr>, None), files')
     \<and> okLayout G \<and> okIndex G idx \<and> concat G = annotate 0 kvs
     \<and> files' keyFilename = Some (layoutFile G)"
proof -
  let ?data = "concat (map (\<lambda>kv. valueBytes (snd kv)) kvs)"
  from writeSegmentBytes_layout [OF ne srt ok]
  obtain G idx where w: "writeSegmentBytes kvs = Returns ((Some idx, None), layoutFile G, ?data)"
    and G: "okLayout G" and ix: "okIndex G idx" and cat: "concat G = annotate 0 kvs"
    by blast
  let ?kt = "keyFilename @ ''.tmp''" and ?dt = "dataFilename @ ''.tmp''"
  let ?f1 = "createWrite (createWrite files ?kt (layoutFile G)) ?dt ?data"
  let ?f2 = "renameFile (renameFile ?f1 ?kt keyFilename) ?dt dataFilename"
  have ktdt: "?kt \<noteq> ?dt" using names(1) by simp
  have f1k: "?f1 ?kt = Some (layoutFile G)" using fresh ktdt by (simp add: createWrite_def)
  have f1d: "?f1 ?dt = Some ?data" using fresh ktdt by (simp add: createWrite_def)
  have f2k: "?f2 keyFilename = Some (layoutFile G)"
    using f1k f1d ktdt names by (simp add: renameFile_def)
  have f2d: "?f2 dataFilename = Some ?data"
    using f1k f1d ktdt names by (simp add: renameFile_def)
  have nd: "newDiskSegment ?f2 keyFilename dataFilename (Some idx)
      = Returns \<lparr>keyFile = layoutFile G, keyBlocks = int (length G), dataFile = ?data,
                 segID = getSegmentID keyFilename, keyIndex = Some idx\<rparr>"
    using keyBlocks_layout [OF G] by (simp add: newDiskSegment_def f2k f2d Let_def)
  have "writeAndLoadSegment files keyFilename dataFilename kvs
      = Returns ((Some \<lparr>keyFile = layoutFile G, keyBlocks = int (length G), dataFile = ?data,
                 segID = getSegmentID keyFilename, keyIndex = Some idx\<rparr>, None), ?f2)"
    by (simp add: writeAndLoadSegment_def writeSegmentFiles_def w Let_def nd)
  with G ix cat f2k show ?thesis by blast
qed

section \<open>Claims about a written segment\<close>

lemma validEntries_map_of:
  assumes "validEntries kvs" and "kv \<in> set kvs"
  shows "map_of kvs (fst kv) = Some (snd kv)"
proof -
  from assms(1) have "sorted_wrt (<) (map fst kvs)" by (simp add: validEntries_def)
  then have "distinct (map fst kvs)" by (simp add: strict_sorted_iff)
  then have "map_of kvs (fst kv) = Some (snd kv) \<longleftrightarrow> (fst kv, snd kv) \<in> set kvs"
    by (rule map_of_eq_Some_iff)
  with assms(2) show ?thesis by simp
qed

text \<open>The segment that writeAndLoadSegment returns answers Get as the written list does.\<close>

lemma writeAndLoadSegment_Get:
  assumes ne: "kvs \<noteq> []" and valid: "validEntries kvs"
    and fresh: "files (keyFilename @ ''.tmp'') = None" "files (dataFilename @ ''.tmp'') = None"
    and names: "keyFilename \<noteq> dataFilename" "dataFilename @ ''.tmp'' \<noteq> keyFilename"
  shows "\<exists>ds idx files'. writeAndLoadSegment files keyFilename dataFilename kvs
            = Returns ((Some ds, None), files')
          \<and> keyIndex ds = Some idx \<and> idx \<noteq> [] \<and> hd idx = fst (hd kvs)
          \<and> (\<forall>key. Get ds key = getResult (map_of kvs key))
          \<and> (\<forall>key. binarySearch ds key = scanResult (map_of (annotate 0 kvs) key))"
proof -
  let ?data = "concat (map (\<lambda>kv. valueBytes (snd kv)) kvs)"
  from valid have srt: "sorted_wrt (<) (map fst kvs)" and ok: "okKeyList kvs"
    by (simp_all add: validEntries_keys)
  from writeAndLoadSegment_layout [OF ne srt ok fresh names]
  obtain G idx files' where w: "writeAndLoadSegment files keyFilename dataFilename kvs
       = Returns ((Some \<lparr>keyFile = layoutFile G, keyBlocks = int (length G), dataFile = ?data,
                          segID = getSegmentID keyFilename, keyIndex = Some idx\<rparr>, None), files')"
    and G: "okLayout G" and ix: "okIndex G idx" and cat: "concat G = annotate 0 kvs"
    by blast
  let ?ds = "\<lparr>keyFile = layoutFile G, keyBlocks = int (length G), dataFile = ?data,
             segID = getSegmentID keyFilename, keyIndex = Some idx\<rparr>"
  have g: "\<forall>key. Get ?ds key = getResult (map_of kvs key)"
    using Get_layout [OF G _ _ _ cat _ valid, of ?ds] ix by simp
  have b: "\<forall>key. binarySearch ?ds key = scanResult (map_of (annotate 0 kvs) key)"
    using binarySearch_layout [OF G, of ?ds] ix by (simp add: cat)
  from G have l: "0 < length G" "G ! 0 \<noteq> []" by (auto simp: okLayout_def okBlock_def)
  from l(1) have "0 < (length G + 1) div 2" by arith
  with ix have "0 < length idx" by (simp add: okIndex_def)
  with ix have i0: "idx \<noteq> []" "idx ! 0 = blockFirst G 0" by (auto simp: okIndex_def)
  from l have "G = (G ! 0) # tl G" by (cases G) auto
  then have "concat G = G ! 0 @ concat (tl G)" by (metis concat.simps(2))
  with l(2) have "hd (concat G) = hd (G ! 0)" by simp
  moreover have "fst (hd (annotate 0 kvs)) = fst (hd kvs)" using ne by (cases kvs) auto
  ultimately have "blockFirst G 0 = fst (hd kvs)" by (simp add: blockFirst_def cat)
  with i0 have "hd idx = fst (hd kvs)" by (simp add: hd_conv_nth)
  with w g b i0(1) show ?thesis by (intro exI [of _ ?ds] exI [of _ idx] exI [of _ files']) simp
qed

text \<open>
  C1 (as amended). For every non-empty list of entries with strictly ascending, non-empty
  keys of at most 1024 bytes (values of at most \<open>2^32 - 2\<close> bytes, less than \<open>2^63\<close> bytes
  in all, or nil for a removed key), written by writeAndLoadSegment to files whose temporary
  names are free, Get on the segment returned gives, for each written key, the value written
  with a nil error; for a removed key that is the nil value with a nil error.
\<close>

theorem written_segment_Get:
  assumes "kvs \<noteq> []" and "validEntries kvs"
    and "files (keyFilename @ ''.tmp'') = None" and "files (dataFilename @ ''.tmp'') = None"
    and "keyFilename \<noteq> dataFilename" and "dataFilename @ ''.tmp'' \<noteq> keyFilename"
  shows "\<exists>ds files'. writeAndLoadSegment files keyFilename dataFilename kvs
            = Returns ((Some ds, None), files')
          \<and> (\<forall>kv \<in> set kvs. Get ds (fst kv) = Returns (snd kv, None))"
proof -
  from writeAndLoadSegment_Get [OF assms]
  obtain ds files' where w: "writeAndLoadSegment files keyFilename dataFilename kvs
            = Returns ((Some ds, None), files')"
    and g: "\<forall>key. Get ds key = getResult (map_of kvs key)"
    by blast
  have "\<forall>kv \<in> set kvs. Get ds (fst kv) = Returns (snd kv, None)"
    using g validEntries_map_of [OF assms(2)] by (simp add: getResult_def)
  with w show ?thesis by blast
qed


theorem written_segment_Get_witness:
  "\<exists>ds files'. writeAndLoadSegment Map.empty ''t.keys.1'' ''t.data.1''
                    [([97], Some [1]), ([98], None)] = Returns ((Some ds, None), files')
     \<and> Get ds [97] = Returns (Some [1], None) \<and> Get ds [98] = Returns (None, None)"
proof -
  have v: "validEntries [([97], Some [1]), ([98], None)]"
    by (simp add: validEntries_def maxKeySize_def okValue_def valueBytes_def)
  from written_segment_Get [of "[([97], Some [1]), ([98], None)]" Map.empty "''t.keys.1''" "''t.data.1''",
      OF _ v]
  show ?thesis by simp
qed

text \<open>
  C1 as stated fails for a removed key: after writing the single entry that removes the key
  "a", Get on that key returns a nil value with a nil error, not the KeyNotFound error.
\<close>

theorem written_segment_Get_counterexample:
  "\<exists>ds files'. writeAndLoadSegment Map.empty ''t.keys.2'' ''t.data.2'' [([97], None)]
                    = Returns ((Some ds, None), files')
     \<and> Get ds [97] = Returns (None, None)
     \<and> Get ds [97] \<noteq> Returns (None, Some KeyNotFound)"
proof -
  have v: "validEntries [([97], None)]"
    by (simp add: validEntries_def maxKeySize_def okValue_def valueBytes_def)
  from writeAndLoadSegment_Get [of "[([97], None)]" Map.empty "''t.keys.2''" "''t.data.2''", OF _ v]
  obtain ds files' where "writeAndLoadSegment Map.empty ''t.keys.2'' ''t.data.2'' [([97], None)]
                    = Returns ((Some ds, None), files')"
    and "\<forall>key. Get ds key = getResult (map_of [([97], None)] key)"
    by auto
  then show ?thesis by (intro exI [of _ ds] exI [of _ files']) (simp add: getResult_def)
qed

text \<open>
  C7. A segment written by the writer carries a non-empty key index whose first key is the
  least key of the segment. For every target key below it, binarySearch reports KeyNotFound,
  Get returns KeyNotFound, and indeed no entry of the segment has that key.
\<close>

theorem index_fast_path:
  assumes "kvs \<noteq> []" and "validEntries kvs"
    and "files (keyFilename @ ''.tmp'') = None" and "files (dataFilename @ ''.tmp'') = None"
    and "keyFilename \<noteq> dataFilename" and "dataFilename @ ''.tmp'' \<noteq> keyFilename"
  shows "\<exists>ds idx files'. writeAndLoadSegment files keyFilename dataFilename kvs
            = Returns ((Some ds, None), files')
          \<and> keyIndex ds = Some idx \<and> idx \<noteq> [] \<and> hd idx = fst (hd kvs)
          \<and> (\<forall>key. key < hd idx \<longrightarrow>
                 binarySearch ds key = Returns (0, 0, Some KeyNotFound)
                 \<and> Get ds key = Returns (None, Some KeyNotFound) \<and> key \<notin> fst ` set kvs)"
proof -
  from writeAndLoadSegment_Get [OF assms]
  obtain ds idx files' where w: "writeAndLoadSegment files keyFilename dataFilename kvs
            = Returns ((Some ds, None), files')"
    and i: "keyIndex ds = Some idx" "idx \<noteq> []" "hd idx = fst (hd kvs)"
    and g: "\<forall>key. Get ds key = getResult (map_of kvs key)"
    and b: "\<forall>key. binarySearch ds key = scanResult (map_of (annotate 0 kvs) key)"
    by blast
  from assms(2) have srt: "sorted_wrt (<) (map fst kvs)" by (simp add: validEntries_def)
  have "\<forall>key. key < hd idx \<longrightarrow>
      binarySearch ds key = Returns (0, 0, Some KeyNotFound)
      \<and> Get ds key = Returns (None, Some KeyNotFound) \<and> key \<notin> fst ` set kvs"
  proof (intro allI impI)
    fix key assume lt: "key < hd idx"
    have nin: "key \<notin> fst ` set kvs"
    proof
      assume "key \<in> fst ` set kvs"
      then have m: "key \<in> set (map fst kvs)" by simp
      from assms(1) obtain kv rest where kvs: "kvs = kv # rest" by (cases kvs) auto
      with srt m have "key = fst kv \<or> fst kv < key" by auto
      with lt i(3) kvs show False by auto
    qed
    then have "map_of kvs key = None" by (simp add: map_of_eq_None_iff)
    with g have gn: "Get ds key = Returns (None, Some KeyNotFound)" by (simp add: getResult_def)
    from nin have "key \<notin> fst ` set (annotate 0 kvs)"
      using map_fst_annotate [of 0 kvs] by (metis set_map)
    then have "map_of (annotate 0 kvs) key = None" by (simp add: map_of_eq_None_iff)
    with b have "binarySearch ds key = Returns (0, 0, Some KeyNotFound)"
      by (simp add: scanResult_def)
    with gn nin show "binarySearch ds key = Returns (0, 0, Some KeyNotFound)
      \<and> Get ds key = Returns (None, Some KeyNotFound) \<and> key \<notin> fst ` set kvs"
      by simp
  qed
  with w i show ?thesis by blast
qed

theorem index_fast_path_witness:
  "\<exists>ds idx files'. writeAndLoadSegment Map.empty ''t.keys.3'' ''t.data.3''
                    [([98], Some [1]), ([99], Some [2, 3])] = Returns ((Some ds, None), files')
     \<and> keyIndex ds = Some idx \<and> hd idx = [98]
     \<and> Get ds [97] = Returns (None, Some KeyNotFound)"
proof -
  have v: "validEntries [([98], Some [1]), ([99], Some [2, 3])]"
    by (simp add: validEntries_def maxKeySize_def okValue_def valueBytes_def)
  from index_fast_path [of "[([98], Some [1]), ([99], Some [2, 3])]" Map.empty "''t.keys.3''" "''t.data.3''",
      OF _ v]
  obtain ds idx files' where "writeAndLoadSegment Map.empty ''t.keys.3'' ''t.data.3''
                    [([98], Some [1]), ([99], Some [2, 3])] = Returns ((Some ds, None), files')"
    "keyIndex ds = Some idx" "hd idx = [98]"
    "\<forall>key. key < hd idx \<longrightarrow> Get ds key = Returns (None, Some KeyNotFound)"
    by auto
  moreover have "[97 :: byte] < [98]" by simp
  ultimately show ?thesis by (intro exI [of _ ds] exI [of _ idx] exI [of _ files']) simp
qed

subsection \<open>The shape of the blocks\<close>




section \<open>The iterator over a written key file\<close>

lemma readEntry_entry:
  assumes d: "drop i buf = entryBytes prev (k, off, len) @ rest" and ok: "okKey prev k"
  defines "pl \<equiv> calculatePrefixLen prev k"
  defines "i' \<equiv> i + length (entryBytes prev (k, off, len))"
  shows "Uint16 (drop i buf) \<noteq> endOfBlock"
    and "decodeKeyLen (Uint16 (drop i buf)) = Inr (of_nat pl, of_nat (length k - pl))"
    and "readEntry buf i prev (of_nat pl) (of_nat (length k - pl)) = Returns (k, off, len, i')"
    and "drop i' buf = rest"
    and "\<not> length buf < i + 2"
proof -
  define dk where "dk = encodeKey k prev"
  let ?ck = "compressedKey dk"
  define e where "e = i + 2 + length ?ck"
  note s = scanKey_entry [OF d ok, folded dk_def, folded e_def]
  from ok have len: "length k \<le> maxKeySize" by (simp add: okKey_def)
  have tl: "pl < length k" unfolding pl_def using ok by (rule okKey_tail)
  note dec = encodeKey_decodes [OF len tl [unfolded pl_def], folded pl_def dk_def]
  show "Uint16 (drop i buf) \<noteq> endOfBlock" using s(1) dec(2) by simp
  show "decodeKeyLen (Uint16 (drop i buf)) = Inr (of_nat pl, of_nat (length k - pl))"
    using s(1) dec(1) by simp
  have i': "i' = e + 12" by (simp add: i'_def e_def length_entryBytes dk_def)
  show "drop i' buf = rest" unfolding i' by (rule s(4))
  from s(5) show "\<not> length buf < i + 2" by (simp add: e_def)
  have ck: "?ck = drop pl k" by (simp add: dk_def pl_def encodeKey_compressedKey)
  have "length k - pl < 65536" using len by (simp add: maxKeySize_def)
  then have un: "unat (of_nat (length k - pl) :: 16 word) = length ?ck"
    by (simp add: unat_of_nat16 ck)
  have d': "drop i buf = PutUint16 (keylen dk) @ ?ck @ PutUint64 off @ PutUint32 len @ rest"
    using d by (simp add: entryBytes_def Let_def dk_def)
  have d2: "drop (i + 2) buf = ?ck @ PutUint64 off @ PutUint32 len @ rest"
    using drop_append_eq(2) [of i buf "PutUint16 (keylen dk)"] d' by simp
  have tk: "take (length ?ck) (drop (i + 2) buf) = ?ck" unfolding d2 by simp
  have d3: "drop e buf = PutUint64 off @ PutUint32 len @ rest"
    using drop_append_eq(2) [of "i + 2" buf ?ck] d2 by (simp add: e_def)
  have d4: "drop (e + 8) buf = PutUint32 len @ rest"
    using drop_append_eq(2) [of e buf "PutUint64 off"] d3 by simp
  have u64: "Uint64 (drop e buf) = off" by (simp add: d3)
  have u32: "Uint32 (drop (e + 8) buf) = len" by (simp add: d4)
  have b1: "\<not> length buf < i + 2 + length ?ck" using s(5) by (simp add: e_def)
  have b2: "\<not> length buf < e + 8" using s(5) by simp
  have b3: "\<not> length buf < e + 8 + 4" using s(5) by simp
  have i'': "e + 8 + 4 = i'" by (simp add: i')
  show "readEntry buf i prev (of_nat pl) (of_nat (length k - pl)) = Returns (k, off, len, i')"
    unfolding readEntry_def Let_def un
    using b1 b2 b3 tk dec(3) u64 u32 i''
    by (simp only: e_def [symmetric] if_False outcome.case) 
qed

definition atPos ::
  "diskSegmentIterator \<Rightarrow> ientry list list \<Rightarrow> nat \<Rightarrow> ientry list \<Rightarrow> bytes option \<Rightarrow> bool" where
  "atPos dsi G j es pk \<longleftrightarrow>
     keyFile (dsi_segment dsi) = layoutFile G \<and> keyBlocks (dsi_segment dsi) = int (length G)
     \<and> dsi_block dsi = int j \<and> j < length G \<and> length (dsi_buffer dsi) = keyBlockSize
     \<and> (\<exists>pad. drop (dsi_bufferOffset dsi) (dsi_buffer dsi)
                = blockBytes pk es @ PutUint16 endOfBlock @ pad)
     \<and> okKeys pk es \<and> \<not> dsi_finished dsi"

lemma atPos_block_start:
  assumes G: "okLayout G" and j: "j < length G"
    and "keyFile (dsi_segment dsi) = layoutFile G" and "keyBlocks (dsi_segment dsi) = int (length G)"
    and "dsi_block dsi = int j" and "dsi_buffer dsi = renderBlock (G ! j)"
    and "dsi_bufferOffset dsi = 0" and "\<not> dsi_finished dsi"
  shows "atPos dsi G j (G ! j) None"
proof -
  from G j have ok: "okBlock (G ! j)" by (simp add: okLayout_def)
  then have "length (renderBlock (G ! j)) = keyBlockSize" by (rule length_renderBlock)
  moreover from ok have "okKeys None (G ! j)" by (simp add: okBlock_def)
  ultimately show ?thesis using assms
    by (auto simp: atPos_def renderBlock_def)
qed

lemma nkvLoop_endOfBlock:
  assumes G: "okLayout G" and p: "atPos dsi G j [] pk"
  shows "nkvLoop dsi pk =
      (if Suc j = length G then
         Returns (Some EndOfIterator,
           dsi\<lparr>dsi_block := int j + 1, dsi_finished := True, dsi_err := Some EndOfIterator,
                dsi_key := None, dsi_data := None, dsi_isValid := True\<rparr>)
       else nkvLoop (dsi\<lparr>dsi_block := int j + 1, dsi_buffer := renderBlock (G ! Suc j),
                          dsi_bufferOffset := 0\<rparr>) None)"
    and "Suc j \<noteq> length G \<Longrightarrow>
      atPos (dsi\<lparr>dsi_block := int j + 1, dsi_buffer := renderBlock (G ! Suc j),
                  dsi_bufferOffset := 0\<rparr>) G (Suc j) (G ! Suc j) None"
proof -
  from p obtain pad where d: "drop (dsi_bufferOffset dsi) (dsi_buffer dsi) = PutUint16 endOfBlock @ pad"
    and f: "keyFile (dsi_segment dsi) = layoutFile G" and kb: "keyBlocks (dsi_segment dsi) = int (length G)"
    and b: "dsi_block dsi = int j" and j: "j < length G"
    and lb: "length (dsi_buffer dsi) = keyBlockSize" and nf: "\<not> dsi_finished dsi"
    by (auto simp: atPos_def)
  from drop_append_length [OF d] have inb: "\<not> length (dsi_buffer dsi) < dsi_bufferOffset dsi + 2"
    by simp
  have eob: "Uint16 (drop (dsi_bufferOffset dsi) (dsi_buffer dsi)) = endOfBlock" by (simp add: d)
  show "nkvLoop dsi pk =
      (if Suc j = length G then
         Returns (Some EndOfIterator,
           dsi\<lparr>dsi_block := int j + 1, dsi_finished := True, dsi_err := Some EndOfIterator,
                dsi_key := None, dsi_data := None, dsi_isValid := True\<rparr>)
       else nkvLoop (dsi\<lparr>dsi_block := int j + 1, dsi_buffer := renderBlock (G ! Suc j),
                          dsi_bufferOffset := 0\<rparr>) None)"
  proof (cases "Suc j = length G")
    case True
    then have "int j + 1 = int (length G)" by simp
    with inb eob True b kb show ?thesis
      by (subst nkvLoop.simps) (simp add: Let_def)
  next
    case False
    with j have sj: "Suc j < length G" by simp
    have ne: "int j + 1 \<noteq> int (length G)" using False by simp
    have "ReadAt (layoutFile G) (dsi_buffer dsi) (int (Suc j) * int keyBlockSize)
            = (renderBlock (G ! Suc j), keyBlockSize, None)"
      using G sj lb by (rule ReadAt_layoutFile)
    then have rd: "ReadAt (layoutFile G) (dsi_buffer dsi) ((int j + 1) * int keyBlockSize)
            = (renderBlock (G ! Suc j), keyBlockSize, None)"
      by (simp add: add.commute)
    show ?thesis
      using inb eob False b kb ne f rd
      by (subst nkvLoop.simps) (simp add: Let_def)
  qed
  assume "Suc j \<noteq> length G"
  with j have sj: "Suc j < length G" by simp
  show "atPos (dsi\<lparr>dsi_block := int j + 1, dsi_buffer := renderBlock (G ! Suc j),
                  dsi_bufferOffset := 0\<rparr>) G (Suc j) (G ! Suc j) None"
    using f kb nf by (intro atPos_block_start [OF G sj]) simp_all
qed

lemma nkvLoop_entry:
  assumes p: "atPos dsi G j ((k, off, len) # es) pk"
  shows "\<exists>off'. atPos (dsi\<lparr>dsi_bufferOffset := off'\<rparr>) G j es (Some k)
      \<and> nkvLoop dsi pk =
         (case checkBounds (dsi_lower dsi) (dsi_upper dsi) k of
            Skip \<Rightarrow> nkvLoop (dsi\<lparr>dsi_bufferOffset := off'\<rparr>) (Some k)
          | Beyond \<Rightarrow>
              Returns (Some EndOfIterator,
                dsi\<lparr>dsi_bufferOffset := off', dsi_finished := True, dsi_isValid := True,
                     dsi_key := None, dsi_data := None, dsi_err := Some EndOfIterator\<rparr>)
          | Found \<Rightarrow>
              (case readData (dataFile (dsi_segment dsi)) off len of
                 (d, e) \<Rightarrow>
                   Returns (e, dsi\<lparr>dsi_bufferOffset := off', dsi_data := d, dsi_key := Some k,
                                    dsi_isValid := True\<rparr>)))"
proof -
  from p obtain pad where
    d: "drop (dsi_bufferOffset dsi) (dsi_buffer dsi)
          = entryBytes pk (k, off, len) @ blockBytes (Some k) es @ PutUint16 endOfBlock @ pad"
    and ok: "okKey pk k" and oks: "okKeys (Some k) es"
    and rest: "keyFile (dsi_segment dsi) = layoutFile G" "keyBlocks (dsi_segment dsi) = int (length G)"
      "dsi_block dsi = int j" "j < length G" "length (dsi_buffer dsi) = keyBlockSize"
      "\<not> dsi_finished dsi"
    by (auto simp: atPos_def)
  define off' where "off' = dsi_bufferOffset dsi + length (entryBytes pk (k, off, len))"
  note r = readEntry_entry [OF d ok, folded off'_def]
  have "atPos (dsi\<lparr>dsi_bufferOffset := off'\<rparr>) G j es (Some k)"
    using r(4) oks rest by (auto simp: atPos_def)
  moreover have "nkvLoop dsi pk =
         (case checkBounds (dsi_lower dsi) (dsi_upper dsi) k of
            Skip \<Rightarrow> nkvLoop (dsi\<lparr>dsi_bufferOffset := off'\<rparr>) (Some k)
          | Beyond \<Rightarrow>
              Returns (Some EndOfIterator,
                dsi\<lparr>dsi_bufferOffset := off', dsi_finished := True, dsi_isValid := True,
                     dsi_key := None, dsi_data := None, dsi_err := Some EndOfIterator\<rparr>)
          | Found \<Rightarrow>
              (case readData (dataFile (dsi_segment dsi)) off len of
                 (d, e) \<Rightarrow>
                   Returns (e, dsi\<lparr>dsi_bufferOffset := off', dsi_data := d, dsi_key := Some k,
                                    dsi_isValid := True\<rparr>)))"
    using r(1,2,3,5)
    by (subst nkvLoop.simps) (simp add: Let_def split: bound.split prod.split)
  ultimately show ?thesis by blast
qed

text \<open>
  What one call of nextKeyValue does with the entries that are left: it passes the entries
  below the lower bound and stops at the first entry that is not below it, which is either
  beyond the upper bound or the entry found.
\<close>

fun seek :: "bytes option \<Rightarrow> bytes option \<Rightarrow> (bytes \<times> 'a) list \<Rightarrow> ((bytes \<times> 'a) \<times> (bytes \<times> 'a) list) option" where
  "seek lower upper [] = None"
| "seek lower upper (e # es) =
     (case checkBounds lower upper (fst e) of
        Skip \<Rightarrow> seek lower upper es
      | Beyond \<Rightarrow> None
      | Found \<Rightarrow> Some (e, es))"

definition nkvSpec ::
  "diskSegmentIterator \<Rightarrow> ientry list list \<Rightarrow> (error option \<times> diskSegmentIterator) outcome
     \<Rightarrow> (ientry \<times> ientry list) option \<Rightarrow> bool" where
  "nkvSpec dsi G res r =
     (case r of
        None \<Rightarrow>
          (\<exists>dsi'. res = Returns (Some EndOfIterator, dsi') \<and> dsi_finished dsi'
             \<and> dsi_err dsi' = Some EndOfIterator \<and> dsi_key dsi' = None \<and> dsi_data dsi' = None
             \<and> dsi_isValid dsi')
      | Some (e, rest') \<Rightarrow>
          (case e of (k, off, len) \<Rightarrow>
             (\<exists>dsi' j' es'.
                res = Returns (snd (readData (dataFile (dsi_segment dsi)) off len), dsi')
              \<and> atPos dsi' G j' es' (Some k) \<and> rest' = es' @ concat (drop (Suc j') G)
              \<and> dsi_key dsi' = Some k
              \<and> dsi_data dsi' = fst (readData (dataFile (dsi_segment dsi)) off len)
              \<and> dsi_isValid dsi' \<and> dsi_err dsi' = dsi_err dsi
              \<and> dsi_lower dsi' = dsi_lower dsi \<and> dsi_upper dsi' = dsi_upper dsi
              \<and> dsi_segment dsi' = dsi_segment dsi)))"

lemma nkvSpec_cong:
  "dsi_segment a = dsi_segment b \<Longrightarrow> dsi_err a = dsi_err b \<Longrightarrow> dsi_lower a = dsi_lower b
     \<Longrightarrow> dsi_upper a = dsi_upper b \<Longrightarrow> nkvSpec a G res r = nkvSpec b G res r"
  by (simp add: nkvSpec_def split: option.split prod.split)

lemma nkvLoop_layout:
  assumes G: "okLayout G"
  shows "atPos dsi G j es pk \<Longrightarrow>
     nkvSpec dsi G (nkvLoop dsi pk)
       (seek (dsi_lower dsi) (dsi_upper dsi) (es @ concat (drop (Suc j) G)))"
proof (induction "2 * length (es @ concat (drop (Suc j) G)) + (if es = [] then 1 else 0)"
    arbitrary: dsi j es pk rule: less_induct)
  case less
  note p = less.prems
  show ?case
  proof (cases es)
    case Nil
    note eob = nkvLoop_endOfBlock [OF G p [unfolded Nil]]
    show ?thesis
    proof (cases "Suc j = length G")
      case True
      then have "concat (drop (Suc j) G) = []" by simp
      with eob(1) True Nil show ?thesis by (simp add: nkvSpec_def)
    next
      case False
      from p have "j < length G" by (simp add: atPos_def)
      with False have sj: "Suc j < length G" by simp
      let ?dsi = "dsi\<lparr>dsi_block := int j + 1, dsi_buffer := renderBlock (G ! Suc j),
                      dsi_bufferOffset := 0\<rparr>"
      have d: "drop (Suc j) G = G ! Suc j # drop (Suc (Suc j)) G"
        using sj by (simp add: Cons_nth_drop_Suc)
      from G sj have ne: "G ! Suc j \<noteq> []" by (simp add: okLayout_def okBlock_def)
      have m: "2 * length (G ! Suc j @ concat (drop (Suc (Suc j)) G)) + (if G ! Suc j = [] then 1 else 0)
          < 2 * length (es @ concat (drop (Suc j) G)) + (if es = [] then 1 else 0)"
        using ne Nil d by simp
      from less.hyps [OF m eob(2) [OF False]]
      have "nkvSpec ?dsi G (nkvLoop ?dsi None)
          (seek (dsi_lower dsi) (dsi_upper dsi) (es @ concat (drop (Suc j) G)))"
        using d Nil by simp
      moreover have "nkvLoop dsi pk = nkvLoop ?dsi None" using eob(1) False by simp
      ultimately show ?thesis by (simp add: nkvSpec_cong [of ?dsi dsi])
    qed
  next
    case (Cons e es')
    obtain k off len where e: "e = (k, off, len)" by (cases e) auto
    from nkvLoop_entry [OF p [unfolded Cons e]]
    obtain off' where p': "atPos (dsi\<lparr>dsi_bufferOffset := off'\<rparr>) G j es' (Some k)"
      and step: "nkvLoop dsi pk =
         (case checkBounds (dsi_lower dsi) (dsi_upper dsi) k of
            Skip \<Rightarrow> nkvLoop (dsi\<lparr>dsi_bufferOffset := off'\<rparr>) (Some k)
          | Beyond \<Rightarrow>
              Returns (Some EndOfIterator,
                dsi\<lparr>dsi_bufferOffset := off', dsi_finished := True, dsi_isValid := True,
                     dsi_key := None, dsi_data := None, dsi_err := Some EndOfIterator\<rparr>)
          | Found \<Rightarrow>
              (case readData (dataFile (dsi_segment dsi)) off len of
                 (d, e) \<Rightarrow>
                   Returns (e, dsi\<lparr>dsi_bufferOffset := off', dsi_data := d, dsi_key := Some k,
                                    dsi_isValid := True\<rparr>)))"
      by blast
    show ?thesis
    proof (cases "checkBounds (dsi_lower dsi) (dsi_upper dsi) k")
      case Skip
      have m: "2 * length (es' @ concat (drop (Suc j) G)) + (if es' = [] then 1 else 0)
          < 2 * length (es @ concat (drop (Suc j) G)) + (if es = [] then 1 else 0)"
        using Cons by simp
      from less.hyps [OF m p'] Skip step Cons e show ?thesis
        by (simp add: nkvSpec_cong [of "dsi\<lparr>dsi_bufferOffset := off'\<rparr>" dsi])
    next
      case Beyond
      with step Cons e show ?thesis by (simp add: nkvSpec_def)
    next
      case Found
      obtain d er where rd: "readData (dataFile (dsi_segment dsi)) off len = (d, er)"
        by (cases "readData (dataFile (dsi_segment dsi)) off len") auto
      let ?dsi' = "dsi\<lparr>dsi_bufferOffset := off', dsi_data := d, dsi_key := Some k,
                       dsi_isValid := True\<rparr>"
      from p' have "atPos ?dsi' G j es' (Some k)" by (simp add: atPos_def)
      with step Found rd Cons e show ?thesis
        by (simp add: nkvSpec_def)
          (intro exI [of _ ?dsi'] exI [of _ j] exI [of _ es'], simp)
    qed
  qed
qed

text \<open>
  The loop of a consumer of the iterator, as in the segment writer: call Next until it returns
  an error, and collect the keys and values returned before. The loop need not end on a
  damaged file, so it is given fuel; \<open>None\<close> is the loop that ran out of it.
\<close>

fun drain ::
  "nat \<Rightarrow> diskSegmentIterator \<Rightarrow> ((bytes option \<times> bytes option) list \<times> error) option outcome" where
  "drain 0 dsi = Returns None"
| "drain (Suc n) dsi =
     (case Next dsi of
        Panics m \<Rightarrow> Panics m
      | Returns (r, dsi') \<Rightarrow>
          (case r of (k, v, err) \<Rightarrow>
             (case err of
                Some e \<Rightarrow> Returns (Some ([], e))
              | None \<Rightarrow>
                  (case drain n dsi' of
                     Panics m \<Rightarrow> Panics m
                   | Returns None \<Rightarrow> Returns None
                   | Returns (Some (es, e)) \<Rightarrow> Returns (Some ((k, v) # es, e))))))"

text \<open>The entries that the calls of nextKeyValue find one after the other.\<close>

fun yields :: "bytes option \<Rightarrow> bytes option \<Rightarrow> (bytes \<times> 'a) list \<Rightarrow> (bytes \<times> 'a) list" where
  "yields lower upper [] = []"
| "yields lower upper (e # es) =
     (case checkBounds lower upper (fst e) of
        Skip \<Rightarrow> yields lower upper es
      | Beyond \<Rightarrow> []
      | Found \<Rightarrow> e # yields lower upper es)"

lemma yields_seek:
  "yields lower upper es =
     (case seek lower upper es of None \<Rightarrow> [] | Some (e, rest) \<Rightarrow> e # yields lower upper rest)"
  by (induction es) (auto split: bound.split)

lemma length_yields: "length (yields lower upper es) \<le> length es"
  by (induction es) (auto split: bound.split)

lemma yields_unbounded [simp]: "yields None None es = es"
  by (induction es) (auto simp: checkBounds_def)

definition yielded :: "bytes \<Rightarrow> ientry \<Rightarrow> bytes option \<times> bytes option" where
  "yielded df e = (case e of (k, off, len) \<Rightarrow> (Some k, fst (readData df off len)))"

lemma atPos_isValid [simp]: "atPos (dsi\<lparr>dsi_isValid := b\<rparr>) G j es pk = atPos dsi G j es pk"
  by (simp add: atPos_def)

lemma drain_layout:
  assumes G: "okLayout G"
  shows "atPos dsi G j es (dsi_key dsi) \<Longrightarrow> \<not> dsi_isValid dsi \<Longrightarrow> dsi_err dsi = None \<Longrightarrow>
     length (yields (dsi_lower dsi) (dsi_upper dsi) (es @ concat (drop (Suc j) G))) < n \<Longrightarrow>
     drain n dsi = Returns (Some (map (yielded (dataFile (dsi_segment dsi)))
         (yields (dsi_lower dsi) (dsi_upper dsi) (es @ concat (drop (Suc j) G))), EndOfIterator))"
proof (induction n arbitrary: dsi j es)
  case 0
  then show ?case by simp
next
  case (Suc n)
  let ?rest = "es @ concat (drop (Suc j) G)"
  let ?l = "dsi_lower dsi" and ?u = "dsi_upper dsi"
  from Suc.prems(1) have nf: "\<not> dsi_finished dsi" by (simp add: atPos_def)
  note spec = nkvLoop_layout [OF G Suc.prems(1)]
  have nx: "Next dsi = (case nkvLoop dsi (dsi_key dsi) of
           Panics m \<Rightarrow> Panics m
         | Returns (e, dsi') \<Rightarrow>
             Returns ((dsi_key dsi', dsi_data dsi', dsi_err dsi'), dsi'\<lparr>dsi_isValid := False\<rparr>))"
    using nf Suc.prems(2) by (simp add: Next_def nextKeyValue_def)
  show ?case
  proof (cases "seek ?l ?u ?rest")
    case None
    with spec obtain dsi' where r: "nkvLoop dsi (dsi_key dsi) = Returns (Some EndOfIterator, dsi')"
      and f: "dsi_err dsi' = Some EndOfIterator"
      by (auto simp: nkvSpec_def)
    have y: "yields ?l ?u ?rest = []" using None by (subst yields_seek) simp
    show ?thesis unfolding y using nx r f by simp
  next
    case (Some a)
    obtain k off len rest' where a: "a = ((k, off, len), rest')" by (cases a) auto
    let ?df = "dataFile (dsi_segment dsi)"
    from spec Some a Suc.prems(3) obtain dsi' j' es' where
      r: "nkvLoop dsi (dsi_key dsi) = Returns (snd (readData ?df off len), dsi')"
      and p': "atPos dsi' G j' es' (Some k)" and rest': "rest' = es' @ concat (drop (Suc j') G)"
      and k': "dsi_key dsi' = Some k" and d': "dsi_data dsi' = fst (readData ?df off len)"
      and e': "dsi_err dsi' = None" and l': "dsi_lower dsi' = ?l" and u': "dsi_upper dsi' = ?u"
      and s': "dsi_segment dsi' = dsi_segment dsi"
      by (auto simp: nkvSpec_def)
    have y: "yields ?l ?u ?rest = (k, off, len) # yields ?l ?u rest'"
      using Some a by (subst yields_seek) simp
    let ?dsi = "dsi'\<lparr>dsi_isValid := False\<rparr>"
    have "length (yields (dsi_lower ?dsi) (dsi_upper ?dsi) (es' @ concat (drop (Suc j') G))) < n"
      using Suc.prems(4) y rest' l' u' by simp
    moreover have "atPos ?dsi G j' es' (dsi_key ?dsi)" using p' k' by simp
    ultimately have "drain n ?dsi = Returns (Some (map (yielded (dataFile (dsi_segment ?dsi)))
         (yields (dsi_lower ?dsi) (dsi_upper ?dsi) (es' @ concat (drop (Suc j') G))), EndOfIterator))"
      using e' by (intro Suc.IH) simp_all
    then have ih: "drain n ?dsi = Returns (Some (map (yielded ?df) (yields ?l ?u rest'), EndOfIterator))"
      using rest' l' u' s' by simp
    show ?thesis unfolding y using nx r k' d' e' ih by (simp add: yielded_def)
  qed
qed

lemma Lookup_unbounded_layout:
  assumes G: "okLayout G" and f: "keyFile ds = layoutFile G" and kb: "keyBlocks ds = int (length G)"
  shows "\<exists>it. Lookup ds None None = Returns (Some it, None)
      \<and> atPos it G 0 (G ! 0) (dsi_key it) \<and> \<not> dsi_isValid it \<and> dsi_err it = None
      \<and> dsi_lower it = None \<and> dsi_upper it = None \<and> dsi_segment it = ds"
proof -
  from G have l: "0 < length G" by (simp add: okLayout_def)
  let ?it = "\<lparr>dsi_segment = ds, dsi_lower = None, dsi_upper = None,
               dsi_buffer = renderBlock (G ! 0), dsi_block = 0, dsi_bufferOffset = 0,
               dsi_key = None, dsi_data = None, dsi_isValid = False,
               dsi_err = None, dsi_finished = False\<rparr>"
  have "ReadAt (layoutFile G) (replicate keyBlockSize 0) (int 0 * int keyBlockSize)
      = (renderBlock (G ! 0), keyBlockSize, None)"
    using G l by (intro ReadAt_layoutFile) simp_all
  then have "Lookup ds None None = Returns (Some ?it, None)"
    by (simp add: Lookup_def Let_def f)
  moreover have "atPos ?it G 0 (G ! 0) None"
    using l f kb by (intro atPos_block_start [OF G]) simp_all
  ultimately show ?thesis by simp
qed

lemma scan_layout:
  assumes G: "okLayout G" and f: "keyFile ds = layoutFile G" and kb: "keyBlocks ds = int (length G)"
  shows "\<exists>it. Lookup ds None None = Returns (Some it, None)
      \<and> (\<forall>n. length (concat G) < n \<longrightarrow>
            drain n it = Returns (Some (map (yielded (dataFile ds)) (concat G), EndOfIterator)))"
proof -
  from Lookup_unbounded_layout [OF assms]
  obtain it where lk: "Lookup ds None None = Returns (Some it, None)"
    and p: "atPos it G 0 (G ! 0) (dsi_key it)" and v: "\<not> dsi_isValid it" and e: "dsi_err it = None"
    and b: "dsi_lower it = None" "dsi_upper it = None" and s: "dsi_segment it = ds"
    by blast
  from G have l: "0 < length G" by (simp add: okLayout_def)
  then have c: "G ! 0 @ concat (drop (Suc 0) G) = concat G"
    by (cases G) simp_all
  have "\<forall>n. length (concat G) < n \<longrightarrow>
            drain n it = Returns (Some (map (yielded (dataFile ds)) (concat G), EndOfIterator))"
  proof (intro allI impI)
    fix n assume "length (concat G) < n"
    then have "length (yields (dsi_lower it) (dsi_upper it) (G ! 0 @ concat (drop (Suc 0) G))) < n"
      by (simp add: b c)
    from drain_layout [OF G p v e this]
    show "drain n it = Returns (Some (map (yielded (dataFile ds)) (concat G), EndOfIterator))"
      by (simp add: b c s)
  qed
  with lk show ?thesis by blast
qed

lemma readData_readValue: "readValue df (off, len) = (v, None) \<Longrightarrow> readData df off len = (v, None)"
  by (auto simp: readValue_def readData_def split: if_splits prod.splits option.splits)

lemma nextOffset_of_nat:
  assumes "okValue v"
  shows "nextOffset (of_nat (length pre)) v = of_nat (length (pre @ valueBytes v))"
proof (cases v)
  case None
  then show ?thesis by (simp add: nextOffset_def valueBytes_def)
next
  case (Some b)
  with assms have "length b < 2 ^ 32" by (simp add: okValue_def)
  then show ?thesis
    using Some by (simp add: nextOffset_def valueBytes_def dataLenOf_def ucast_of_nat32)
qed

lemma yielded_annotate:
  assumes "\<forall>kv \<in> set kvs. okValue (snd kv)"
    and "df = pre @ concat (map (\<lambda>kv. valueBytes (snd kv)) kvs)"
    and "length df < 2 ^ 63"
  shows "map (yielded df) (annotate (of_nat (length pre)) kvs)
       = map (\<lambda>kv. (Some (fst kv), snd kv)) kvs"
  using assms
proof (induction kvs arbitrary: pre)
  case Nil
  then show ?case by simp
next
  case (Cons kv kvs)
  obtain k v where kv: "kv = (k, v)" by (cases kv) auto
  from Cons.prems(1) kv have okv: "okValue v" and okr: "\<forall>kv \<in> set kvs. okValue (snd kv)"
    by auto
  have df: "df = (pre @ valueBytes v) @ concat (map (\<lambda>kv. valueBytes (snd kv)) kvs)"
    using Cons.prems(2) kv by simp
  from readValue_annotate [OF Cons.prems, of k]
  have "readValue df (of_nat (length pre), dataLenOf v) = (v, None)" by (simp add: kv)
  then have "readData df (of_nat (length pre)) (dataLenOf v) = (v, None)"
    by (rule readData_readValue)
  then have hd: "yielded df (k, of_nat (length pre), dataLenOf v) = (Some k, v)"
    by (simp add: yielded_def)
  from Cons.IH [OF okr df Cons.prems(3)] hd show ?case
    by (simp add: kv nextOffset_of_nat [OF okv])
qed

text \<open>
  The full scan filtered to a key, as a point lookup would report it: the key is not found
  when no entry of the scan has it, else the value of the first such entry is returned (nil
  for a removed key).
\<close>

definition scanGet :: "(bytes option \<times> bytes option) list \<Rightarrow> bytes \<Rightarrow> (bytes option \<times> error option) outcome" where
  "scanGet es key =
     (case filter (\<lambda>e. fst e = Some key) es of
        [] \<Rightarrow> Returns (None, Some KeyNotFound)
      | e # rest \<Rightarrow> Returns (snd e, None))"

lemma scanGet_map_of:
  "scanGet (map (\<lambda>kv. (Some (fst kv), snd kv)) kvs) key = getResult (map_of kvs key)"
proof (induction kvs)
  case Nil
  show ?case by (simp add: scanGet_def getResult_def)
next
  case (Cons kv kvs)
  then show ?case by (cases kv) (auto simp: scanGet_def getResult_def)
qed

lemma length_annotate [simp]: "length (annotate off kvs) = length kvs"
  by (induction kvs arbitrary: off) auto

lemma writeAndLoadSegment_scan:
  assumes ne: "kvs \<noteq> []" and valid: "validEntries kvs"
    and fresh: "files (keyFilename @ ''.tmp'') = None" "files (dataFilename @ ''.tmp'') = None"
    and names: "keyFilename \<noteq> dataFilename" "dataFilename @ ''.tmp'' \<noteq> keyFilename"
  shows "\<exists>ds files' it. writeAndLoadSegment files keyFilename dataFilename kvs
            = Returns ((Some ds, None), files')
          \<and> Lookup ds None None = Returns (Some it, None)
          \<and> (\<forall>n. length kvs < n \<longrightarrow>
                drain n it = Returns (Some (map (\<lambda>kv. (Some (fst kv), snd kv)) kvs, EndOfIterator)))
          \<and> (\<forall>key. Get ds key = getResult (map_of kvs key))"
proof -
  let ?data = "concat (map (\<lambda>kv. valueBytes (snd kv)) kvs)"
  from valid have srt: "sorted_wrt (<) (map fst kvs)" and ok: "okKeyList kvs"
    by (simp_all add: validEntries_keys)
  from writeAndLoadSegment_layout [OF ne srt ok fresh names]
  obtain G idx files' where w: "writeAndLoadSegment files keyFilename dataFilename kvs
       = Returns ((Some \<lparr>keyFile = layoutFile G, keyBlocks = int (length G), dataFile = ?data,
                          segID = getSegmentID keyFilename, keyIndex = Some idx\<rparr>, None), files')"
    and G: "okLayout G" and ix: "okIndex G idx" and cat: "concat G = annotate 0 kvs"
    by blast
  let ?ds = "\<lparr>keyFile = layoutFile G, keyBlocks = int (length G), dataFile = ?data,
             segID = getSegmentID keyFilename, keyIndex = Some idx\<rparr>"
  have g: "\<forall>key. Get ?ds key = getResult (map_of kvs key)"
    using Get_layout [OF G _ _ _ cat _ valid, of ?ds] ix by simp
  from scan_layout [OF G, of ?ds]
  obtain it where lk: "Lookup ?ds None None = Returns (Some it, None)"
    and dr: "\<forall>n. length (concat G) < n \<longrightarrow>
            drain n it = Returns (Some (map (yielded ?data) (concat G), EndOfIterator))"
    by auto
  from valid have okv: "\<forall>kv \<in> set kvs. okValue (snd kv)" and len: "length ?data < 2 ^ 63"
    by (auto simp: validEntries_def)
  have "?data = [] @ ?data" by simp
  from yielded_annotate [OF okv this len]
  have "map (yielded ?data) (concat G) = map (\<lambda>kv. (Some (fst kv), snd kv)) kvs"
    by (simp add: cat)
  with dr have "\<forall>n. length kvs < n \<longrightarrow>
      drain n it = Returns (Some (map (\<lambda>kv. (Some (fst kv), snd kv)) kvs, EndOfIterator))"
    by (simp add: cat)
  with w lk g show ?thesis
    by (intro exI [of _ ?ds] exI [of _ files'] exI [of _ it]) simp
qed

text \<open>
  C2. For every segment written by writeAndLoadSegment from a non-empty list of valid
  entries (to files whose temporary names are free), the iterator of Lookup(nil, nil) is
  returned without error; driven by Next until the first error it ends with EndOfIterator
  after having returned exactly the written keys with their values, in order (any fuel
  above the number of entries is enough); and for every key, Get returns what the scan
  filtered to that key gives: KeyNotFound when no entry of the scan has the key, else the
  value of that entry (nil for a removed key) without error.
\<close>

theorem Get_equals_scan:
  assumes "kvs \<noteq> []" and "validEntries kvs"
    and "files (keyFilename @ ''.tmp'') = None" and "files (dataFilename @ ''.tmp'') = None"
    and "keyFilename \<noteq> dataFilename" and "dataFilename @ ''.tmp'' \<noteq> keyFilename"
  shows "\<exists>ds files' it es. writeAndLoadSegment files keyFilename dataFilename kvs
            = Returns ((Some ds, None), files')
          \<and> Lookup ds None None = Returns (Some it, None)
          \<and> es = map (\<lambda>kv. (Some (fst kv), snd kv)) kvs
          \<and> (\<forall>n. length kvs < n \<longrightarrow> drain n it = Returns (Some (es, EndOfIterator)))
          \<and> (\<forall>key. Get ds key = scanGet es key)"
proof -
  from writeAndLoadSegment_scan [OF assms]
  obtain ds files' it where "writeAndLoadSegment files keyFilename dataFilename kvs
            = Returns ((Some ds, None), files')"
    "Lookup ds None None = Returns (Some it, None)"
    "\<forall>n. length kvs < n \<longrightarrow>
        drain n it = Returns (Some (map (\<lambda>kv. (Some (fst kv), snd kv)) kvs, EndOfIterator))"
    "\<forall>key. Get ds key = getResult (map_of kvs key)"
    by blast
  then show ?thesis
    by (intro exI [of _ ds] exI [of _ files'] exI [of _ it]
        exI [of _ "map (\<lambda>kv. (Some (fst kv), snd kv)) kvs"]) (simp add: scanGet_map_of)
qed

theorem Get_equals_scan_witness:
  "\<exists>ds files' it. writeAndLoadSegment Map.empty ''t.keys.5'' ''t.data.5''
        [([97], Some [1]), ([98], None), ([99], Some [])] = Returns ((Some ds, None), files')
     \<and> Lookup ds None None = Returns (Some it, None)
     \<and> drain 4 it = Returns (Some ([(Some [97], Some [1]), (Some [98], None), (Some [99], Some [])],
                                    EndOfIterator))
     \<and> Get ds [97] = Returns (Some [1], None) \<and> Get ds [98] = Returns (None, None)
     \<and> Get ds [99] = Returns (Some [], None) \<and> Get ds [100] = Returns (None, Some KeyNotFound)"
proof -
  have v: "validEntries [([97], Some [1]), ([98], None), ([99], Some [])]"
    by (simp add: validEntries_def maxKeySize_def okValue_def valueBytes_def)
  from Get_equals_scan [of "[([97], Some [1]), ([98], None), ([99], Some [])]" Map.empty
      "''t.keys.5''" "''t.data.5''", OF _ v]
  obtain ds files' it es where w: "writeAndLoadSegment Map.empty ''t.keys.5'' ''t.data.5''
        [([97], Some [1]), ([98], None), ([99], Some [])] = Returns ((Some ds, None), files')"
    and lk: "Lookup ds None None = Returns (Some it, None)"
    and es: "es = [(Some [97], Some [1]), (Some [98], None), (Some [99], Some [])]"
    and dr: "\<forall>n. 3 < n \<longrightarrow> drain n it = Returns (Some (es, EndOfIterator))"
    and g: "\<forall>key. Get ds key = scanGet es key"
    by auto
  from dr have "drain 4 it = Returns (Some (es, EndOfIterator))" by simp
  moreover have "Get ds [97] = Returns (Some [1], None)" "Get ds [98] = Returns (None, None)"
    "Get ds [99] = Returns (Some [], None)" "Get ds [100] = Returns (None, Some KeyNotFound)"
    using g by (simp_all add: es scanGet_def)
  ultimately show ?thesis using w lk es by (intro exI conjI) simp_all
qed

subsection \<open>Range scans\<close>

lemma Lookup_layout:
  assumes G: "okLayout G" and f: "keyFile ds = layoutFile G" and kb: "keyBlocks ds = int (length G)"
  shows "\<exists>it r. Lookup ds lower upper = Returns (Some it, None)
      \<and> atPos it G r (G ! r) (dsi_key it) \<and> \<not> dsi_isValid it \<and> dsi_err it = None
      \<and> dsi_lower it = lower \<and> dsi_upper it = upper \<and> dsi_segment it = ds \<and> r < length G
      \<and> (case lower of
            None \<Rightarrow> r = 0
          | Some l \<Rightarrow> (Suc r < length G \<longrightarrow> l < blockFirst G (Suc r))
                    \<and> (0 < r \<longrightarrow> \<not> l < blockFirst G r))"
proof -
  from G have len: "0 < length G" by (simp add: okLayout_def)
  have "\<exists>r buf'. (case lower of
              None \<Rightarrow> Returns (0, replicate keyBlockSize 0)
            | Some l \<Rightarrow> binarySearch0 ds 0 (keyBlocks ds - 1) l (replicate keyBlockSize 0))
          = Returns (int r, buf')
        \<and> length buf' = keyBlockSize \<and> r < length G
        \<and> (case lower of
            None \<Rightarrow> r = 0
          | Some l \<Rightarrow> (Suc r < length G \<longrightarrow> l < blockFirst G (Suc r))
                    \<and> (0 < r \<longrightarrow> \<not> l < blockFirst G r))"
  proof (cases lower)
    case None
    with len show ?thesis by (intro exI [of _ 0]) simp
  next
    case (Some l)
    have hi: "keyBlocks ds - 1 < int (length G)" "0 \<le> keyBlocks ds - 1" using kb len by simp_all
    from binarySearch0_layout [OF G f _ hi(2) hi(1), of "replicate keyBlockSize 0" l]
    obtain r buf' where b: "binarySearch0 ds 0 (keyBlocks ds - 1) l (replicate keyBlockSize 0)
          = Returns (r, buf')"
      and lb: "length buf' = keyBlockSize" and r: "0 \<le> r" "r \<le> keyBlocks ds - 1"
      and up: "r < keyBlocks ds - 1 \<longrightarrow> l < blockFirst G (nat r + 1)"
      and lo: "0 < r \<longrightarrow> \<not> l < blockFirst G (nat r)"
      by auto
    have nr: "int (nat r) = r" using r by simp
    have "nat r < length G" using r kb by linarith
    moreover have "Suc (nat r) < length G \<longrightarrow> l < blockFirst G (Suc (nat r))"
    proof
      assume "Suc (nat r) < length G"
      then have "r < keyBlocks ds - 1" using kb r by linarith
      with up show "l < blockFirst G (Suc (nat r))" by simp
    qed
    moreover have "0 < nat r \<longrightarrow> \<not> l < blockFirst G (nat r)" using lo by simp
    ultimately show ?thesis using b lb nr Some by (intro exI [of _ "nat r"] exI [of _ buf']) simp
  qed
  then obtain r buf' where s: "(case lower of
              None \<Rightarrow> Returns (0, replicate keyBlockSize 0)
            | Some l \<Rightarrow> binarySearch0 ds 0 (keyBlocks ds - 1) l (replicate keyBlockSize 0))
          = Returns (int r, buf')"
    and lb: "length buf' = keyBlockSize" and r: "r < length G"
    and c: "case lower of
            None \<Rightarrow> r = 0
          | Some l \<Rightarrow> (Suc r < length G \<longrightarrow> l < blockFirst G (Suc r))
                    \<and> (0 < r \<longrightarrow> \<not> l < blockFirst G r)"
    by blast
  let ?it = "\<lparr>dsi_segment = ds, dsi_lower = lower, dsi_upper = upper,
               dsi_buffer = renderBlock (G ! r), dsi_block = int r, dsi_bufferOffset = 0,
               dsi_key = None, dsi_data = None, dsi_isValid = False,
               dsi_err = None, dsi_finished = False\<rparr>"
  have rd: "ReadAt (layoutFile G) buf' (int r * int keyBlockSize)
      = (renderBlock (G ! r), keyBlockSize, None)"
    using G r lb by (rule ReadAt_layoutFile)
  have "Lookup ds lower upper = Returns (Some ?it, None)"
    unfolding Lookup_def Let_def s using rd by (simp add: f)
  moreover have "atPos ?it G r (G ! r) None"
    using f kb by (intro atPos_block_start [OF G r]) simp_all
  ultimately show ?thesis using r c by (intro exI [of _ ?it] exI [of _ r]) simp
qed

lemma yields_skip_prefix:
  "\<forall>e \<in> set xs. checkBounds lower upper (fst e) = Skip \<Longrightarrow>
     yields lower upper (xs @ ys) = yields lower upper ys"
  by (induction xs) auto

lemma concat_take_drop: "concat G = concat (take r G) @ concat (drop r G)"
  by (metis append_take_drop_id concat_append)

lemma yields_from_block:
  assumes G: "okLayout G" and r: "r < length G"
    and c: "case lower of None \<Rightarrow> r = 0 | Some l \<Rightarrow> 0 < r \<longrightarrow> \<not> l < blockFirst G r"
  shows "yields lower upper (G ! r @ concat (drop (Suc r) G)) = yields lower upper (concat G)"
proof -
  have d: "G ! r @ concat (drop (Suc r) G) = concat (drop r G)"
    using r by (simp add: Cons_nth_drop_Suc [symmetric])
  have "\<forall>e \<in> set (concat (take r G)). checkBounds lower upper (fst e) = Skip"
  proof
    fix e assume "e \<in> set (concat (take r G))"
    then obtain g where "g \<in> set (take r G)" "e \<in> set g" by auto
    then obtain i where "i < length (take r G)" "take r G ! i = g"
      by (auto simp: in_set_conv_nth)
    with \<open>e \<in> set g\<close> have j: "i < r" "e \<in> set (G ! i)" by simp_all
    with c obtain l where l: "lower = Some l" "\<not> l < blockFirst G r"
      by (cases lower) auto
    from G r have "G ! r \<noteq> []" by (simp add: okLayout_def okBlock_def)
    then have "hd (G ! r) \<in> set (G ! r)" by simp
    with sorted_concat_blocks [of "\<lambda>a b. fst a < fst b" G i r e "hd (G ! r)"] G j r
    have "fst e < blockFirst G r" by (simp add: okLayout_def blockFirst_def)
    with l(2) have "fst e < l" by simp
    with l(1) show "checkBounds lower upper (fst e) = Skip" by (simp add: checkBounds_def)
  qed
  from yields_skip_prefix [OF this, of "concat (drop r G)"]
  show ?thesis unfolding d by (simp add: concat_take_drop [symmetric])
qed

text \<open>
  A range scan on a written key file: Lookup returns an iterator without error, and Next,
  called until its first error, ends with EndOfIterator after the entries that \<open>yields\<close>
  selects from all the entries of the file.
\<close>

lemma range_scan_layout:
  assumes G: "okLayout G" and f: "keyFile ds = layoutFile G" and kb: "keyBlocks ds = int (length G)"
  shows "\<exists>it. Lookup ds lower upper = Returns (Some it, None)
      \<and> (\<forall>n. length (concat G) < n \<longrightarrow>
            drain n it = Returns (Some (map (yielded (dataFile ds))
                                           (yields lower upper (concat G)), EndOfIterator)))"
proof -
  from Lookup_layout [OF assms, of lower upper]
  obtain it r where lk: "Lookup ds lower upper = Returns (Some it, None)"
    and p: "atPos it G r (G ! r) (dsi_key it)" and v: "\<not> dsi_isValid it" and e: "dsi_err it = None"
    and b: "dsi_lower it = lower" "dsi_upper it = upper" and s: "dsi_segment it = ds"
    and r: "r < length G"
    and c: "case lower of
            None \<Rightarrow> r = 0
          | Some l \<Rightarrow> (Suc r < length G \<longrightarrow> l < blockFirst G (Suc r))
                    \<and> (0 < r \<longrightarrow> \<not> l < blockFirst G r)"
    by blast
  from c have c': "case lower of None \<Rightarrow> r = 0 | Some l \<Rightarrow> 0 < r \<longrightarrow> \<not> l < blockFirst G r"
    by (cases lower) auto
  note y = yields_from_block [OF G r c', of upper]
  have "\<forall>n. length (concat G) < n \<longrightarrow>
            drain n it = Returns (Some (map (yielded (dataFile ds))
                                           (yields lower upper (concat G)), EndOfIterator))"
  proof (intro allI impI)
    fix n assume n: "length (concat G) < n"
    have "length (yields lower upper (concat G)) \<le> length (concat G)" by (rule length_yields)
    with n have "length (yields (dsi_lower it) (dsi_upper it) (G ! r @ concat (drop (Suc r) G))) < n"
      unfolding b y by simp
    from drain_layout [OF G p v e this]
    show "drain n it = Returns (Some (map (yielded (dataFile ds))
                                           (yields lower upper (concat G)), EndOfIterator))"
      unfolding b y s .
  qed
  with lk show ?thesis by blast
qed

text \<open>The keys within the bounds, both inclusive; a nil bound is no bound.\<close>

definition inRange :: "bytes option \<Rightarrow> bytes option \<Rightarrow> bytes \<Rightarrow> bool" where
  "inRange lower upper k \<longleftrightarrow>
     (case lower of None \<Rightarrow> True | Some l \<Rightarrow> l \<le> k) \<and> (case upper of None \<Rightarrow> True | Some u \<Rightarrow> k \<le> u)"

definition orderedBounds :: "bytes option \<Rightarrow> bytes option \<Rightarrow> bool" where
  "orderedBounds lower upper \<longleftrightarrow>
     (case lower of None \<Rightarrow> True | Some l \<Rightarrow> (case upper of None \<Rightarrow> True | Some u \<Rightarrow> l \<le> u))"

lemma yields_inRange:
  assumes "orderedBounds lower upper" and "sorted_wrt (\<lambda>a b. fst a < fst b) es"
  shows "yields lower upper es = filter (\<lambda>e. inRange lower upper (fst e)) es"
  using assms(2)
proof (induction es)
  case Nil
  show ?case by simp
next
  case (Cons e es)
  then have ih: "yields lower upper es = filter (\<lambda>e. inRange lower upper (fst e)) es"
    and gt: "\<forall>x \<in> set es. fst e < fst x"
    by simp_all
  show ?case
  proof (cases "checkBounds lower upper (fst e)")
    case Skip
    then have "\<not> inRange lower upper (fst e)"
      by (auto simp: checkBounds_def inRange_def split: option.splits if_splits)
    with Skip ih show ?thesis by simp
  next
    case Found
    then have "inRange lower upper (fst e)"
      using assms(1)
      by (auto simp: checkBounds_def inRange_def orderedBounds_def split: option.splits if_splits)
    with Found ih show ?thesis by simp
  next
    case Beyond
    then obtain u where u: "upper = Some u" "u < fst e"
      by (auto simp: checkBounds_def split: option.splits if_splits)
    then have "\<not> inRange lower upper (fst e)" by (auto simp: inRange_def)
    moreover have "\<forall>x \<in> set es. \<not> inRange lower upper (fst x)"
    proof
      fix x assume "x \<in> set es"
      with gt have "fst e < fst x" by simp
      with u(2) have "u < fst x" by simp
      with u(1) show "\<not> inRange lower upper (fst x)" by (auto simp: inRange_def)
    qed
    ultimately have "filter (\<lambda>e. inRange lower upper (fst e)) (e # es) = []"
      by (simp add: filter_empty_conv)
    with Beyond show ?thesis by simp
  qed
qed

lemma yielded_yields_annotate:
  assumes "\<forall>kv \<in> set kvs. okValue (snd kv)"
    and "df = pre @ concat (map (\<lambda>kv. valueBytes (snd kv)) kvs)"
    and "length df < 2 ^ 63"
  shows "map (yielded df) (yields lower upper (annotate (of_nat (length pre)) kvs))
       = map (\<lambda>kv. (Some (fst kv), snd kv)) (yields lower upper kvs)"
  using assms
proof (induction kvs arbitrary: pre)
  case Nil
  then show ?case by simp
next
  case (Cons kv kvs)
  obtain k v where kv: "kv = (k, v)" by (cases kv) auto
  from Cons.prems(1) kv have okv: "okValue v" and okr: "\<forall>kv \<in> set kvs. okValue (snd kv)"
    by auto
  have df: "df = (pre @ valueBytes v) @ concat (map (\<lambda>kv. valueBytes (snd kv)) kvs)"
    using Cons.prems(2) kv by simp
  from yielded_annotate [OF Cons.prems]
  have hd: "yielded df (k, of_nat (length pre), dataLenOf v) = (Some k, v)"
    by (simp add: kv)
  from Cons.IH [OF okr df Cons.prems(3)] hd show ?case
    by (simp add: kv nextOffset_of_nat [OF okv] split: bound.split)
qed

lemma writeAndLoadSegment_range:
  assumes ne: "kvs \<noteq> []" and valid: "validEntries kvs"
    and fresh: "files (keyFilename @ ''.tmp'') = None" "files (dataFilename @ ''.tmp'') = None"
    and names: "keyFilename \<noteq> dataFilename" "dataFilename @ ''.tmp'' \<noteq> keyFilename"
  shows "\<exists>ds files'. writeAndLoadSegment files keyFilename dataFilename kvs
            = Returns ((Some ds, None), files')
          \<and> (\<forall>lower upper. \<exists>it. Lookup ds lower upper = Returns (Some it, None)
                \<and> (\<forall>n. length kvs < n \<longrightarrow>
                      drain n it = Returns (Some (map (\<lambda>kv. (Some (fst kv), snd kv))
                                                     (yields lower upper kvs), EndOfIterator))))"
proof -
  let ?data = "concat (map (\<lambda>kv. valueBytes (snd kv)) kvs)"
  from valid have srt: "sorted_wrt (<) (map fst kvs)" and ok: "okKeyList kvs"
    by (simp_all add: validEntries_keys)
  from writeAndLoadSegment_layout [OF ne srt ok fresh names]
  obtain G idx files' where w: "writeAndLoadSegment files keyFilename dataFilename kvs
       = Returns ((Some \<lparr>keyFile = layoutFile G, keyBlocks = int (length G), dataFile = ?data,
                          segID = getSegmentID keyFilename, keyIndex = Some idx\<rparr>, None), files')"
    and G: "okLayout G" and cat: "concat G = annotate 0 kvs"
    by blast
  let ?ds = "\<lparr>keyFile = layoutFile G, keyBlocks = int (length G), dataFile = ?data,
             segID = getSegmentID keyFilename, keyIndex = Some idx\<rparr>"
  from valid have okv: "\<forall>kv \<in> set kvs. okValue (snd kv)" and len: "length ?data < 2 ^ 63"
    by (auto simp: validEntries_def)
  have d0: "?data = [] @ ?data" by simp
  have "\<exists>it. Lookup ?ds lower upper = Returns (Some it, None)
                \<and> (\<forall>n. length kvs < n \<longrightarrow>
                      drain n it = Returns (Some (map (\<lambda>kv. (Some (fst kv), snd kv))
                                                     (yields lower upper kvs), EndOfIterator)))"
    for lower upper
  proof -
    from range_scan_layout [OF G, of ?ds lower upper]
    obtain it where lk: "Lookup ?ds lower upper = Returns (Some it, None)"
      and dr: "\<forall>n. length (concat G) < n \<longrightarrow>
            drain n it = Returns (Some (map (yielded ?data) (yields lower upper (concat G)),
                                        EndOfIterator))"
      by auto
    from yielded_yields_annotate [OF okv d0 len, of lower upper]
    have "map (yielded ?data) (yields lower upper (concat G))
        = map (\<lambda>kv. (Some (fst kv), snd kv)) (yields lower upper kvs)"
      by (simp add: cat)
    with dr lk show ?thesis by (simp add: cat)
  qed
  with w show ?thesis by (intro exI [of _ ?ds] exI [of _ files']) simp
qed

text \<open>
  With bounds in order (or absent) the entries returned are exactly those within the bounds.
\<close>

lemma yields_ordered_bounds:
  assumes "orderedBounds lower upper" and "validEntries kvs"
  shows "yields lower upper kvs = filter (\<lambda>kv. inRange lower upper (fst kv)) kvs"
proof -
  from assms(2) have "sorted_wrt (<) (map fst kvs)" by (simp add: validEntries_def)
  then have "sorted_wrt (\<lambda>a b. fst a < fst b) kvs" by (simp add: sorted_wrt_map)
  with assms(1) show ?thesis by (rule yields_inRange)
qed

text \<open>
  C6, at bounds given in the wrong order. The segment holds the single key "b" with the
  value 1. Lookup("b", "a") returns an iterator whose first Next returns key "b", although
  "b" is not within the bounds (no key is); the second Next returns EndOfIterator.
\<close>

theorem Lookup_inverted_bounds:
  "\<exists>ds files' it. writeAndLoadSegment Map.empty ''t.keys.6'' ''t.data.6'' [([98], Some [1])]
        = Returns ((Some ds, None), files')
     \<and> Lookup ds (Some [98]) (Some [97]) = Returns (Some it, None)
     \<and> drain 2 it = Returns (Some ([(Some [98], Some [1])], EndOfIterator))
     \<and> \<not> inRange (Some [98]) (Some [97]) [98]"
proof -
  have v: "validEntries [([98], Some [1])]"
    by (simp add: validEntries_def maxKeySize_def okValue_def valueBytes_def)
  from writeAndLoadSegment_range [of "[([98], Some [1])]" Map.empty "''t.keys.6''" "''t.data.6''", OF _ v]
  obtain ds files' where w: "writeAndLoadSegment Map.empty ''t.keys.6'' ''t.data.6'' [([98], Some [1])]
        = Returns ((Some ds, None), files')"
    and r: "\<forall>lower upper. \<exists>it. Lookup ds lower upper = Returns (Some it, None)
                \<and> (\<forall>n. length [([98 :: byte], Some [1 :: byte])] < n \<longrightarrow>
                      drain n it = Returns (Some (map (\<lambda>kv. (Some (fst kv), snd kv))
                                (yields lower upper [([98], Some [1])]), EndOfIterator)))"
    by auto
  from r obtain it where lk: "Lookup ds (Some [98]) (Some [97]) = Returns (Some it, None)"
    and dr: "\<forall>n. length [([98 :: byte], Some [1 :: byte])] < n \<longrightarrow>
                      drain n it = Returns (Some (map (\<lambda>kv. (Some (fst kv), snd kv))
                                (yields (Some [98]) (Some [97]) [([98], Some [1])]), EndOfIterator))"
    by blast
  have y: "yields (Some [98 :: byte]) (Some [97]) [([98], Some [1 :: byte])] = [([98], Some [1])]"
    by (simp add: checkBounds_def)
  from dr have "drain 2 it = Returns (Some ([(Some [98], Some [1])], EndOfIterator))"
    unfolding y by simp
  moreover have "\<not> inRange (Some [98]) (Some [97]) [98]" by (simp add: inRange_def)
  ultimately show ?thesis using w lk by (intro exI conjI)
qed

end
